theory Spec2Isabelle
  imports Complex_Main "HOL-Library.AList"
begin

section \<open>Python exceptions\<close>

text \<open>
  Every exception the modelled functions can raise is a value of this type; a function
  that can raise returns \<open>py_error + 'a\<close>, with \<open>Inl\<close> for the exception.
\<close>

datatype py_error =
    ValueError
  | TypeError
  | AttributeError
  | KeyError
  | UnboundLocalError
  | RecursionError
  | UnicodeEncodeError

section \<open>The LLM client (\<open>utils/llm_client.py\<close>)\<close>

subsection \<open>Provider resolution: \<open>LLMClient._init_client\<close>\<close>

text \<open>
  The environment is \<open>os.getenv\<close>: a partial map from variable names to strings.
  \<open>getenv_default env k d\<close> is \<open>os.getenv(k, d)\<close>.
\<close>

type_synonym environ = "string \<Rightarrow> string option"

definition getenv_default :: "environ \<Rightarrow> string \<Rightarrow> string \<Rightarrow> string" where
  "getenv_default env k d = (case env k of None \<Rightarrow> d | Some v \<Rightarrow> v)"

datatype provider = Zai | Openai

text \<open>
  The handle built by the library constructor \<open>OpenAI(api_key=..., base_url=...)\<close>.
  The constructor belongs to the \<open>openai\<close> package, not to this repository, so it is a
  parameter \<open>ctor\<close> of the model: \<open>ctor key url = None\<close> means that the constructor raised
  (the source catches every \<open>Exception\<close> around it), \<open>Some h\<close> that it returned \<open>h\<close>.
\<close>

record api_handle =
  api_key :: string
  base_url :: "string option"

type_synonym constructor = "string \<Rightarrow> string option \<Rightarrow> api_handle option"

record llm_client =
  provider :: "provider option"
  client :: "api_handle option"
  model :: "string option"

text \<open>The state set by \<open>__init__\<close> before it calls \<open>_init_client\<close>.\<close>

definition fresh_client :: llm_client where
  "fresh_client = \<lparr>provider = None, client = None, model = None\<rparr>"

text \<open>
  \<open>_init_client\<close>. The \<open>print\<close> calls are console output and are left out. In the source
  \<open>self.client\<close> is assigned by the statement that calls the constructor, so when the
  constructor raises, none of the three attributes is assigned in that branch.
\<close>

definition try_zai :: "constructor \<Rightarrow> environ \<Rightarrow> llm_client \<Rightarrow> llm_client option" where
  "try_zai ctor env self =
     (case ctor (getenv_default env ''ZAI_API_KEY'' '''')
                (Some (getenv_default env ''ZAI_BASE_URL'' ''https://api.z.ai/api/paas/v4/'')) of
        None \<Rightarrow> None
      | Some h \<Rightarrow> Some (self\<lparr>client := Some h, provider := Some Zai,
                              model := Some (getenv_default env ''AI_MODEL'' ''glm-4.6'')\<rparr>))"

definition try_openai :: "constructor \<Rightarrow> environ \<Rightarrow> llm_client \<Rightarrow> llm_client option" where
  "try_openai ctor env self =
     (case ctor (getenv_default env ''OPENAI_API_KEY'' '''') None of
        None \<Rightarrow> None
      | Some h \<Rightarrow> Some (self\<lparr>client := Some h, provider := Some Openai,
                              model := Some (getenv_default env ''AI_MODEL'' ''gpt-4o-mini'')\<rparr>))"

definition fall_back_to_openai :: "constructor \<Rightarrow> environ \<Rightarrow> llm_client \<Rightarrow> llm_client" where
  "fall_back_to_openai ctor env self =
     (if getenv_default env ''OPENAI_API_KEY'' '''' \<noteq> '''' then
        (case try_openai ctor env self of Some self' \<Rightarrow> self' | None \<Rightarrow> self)
      else self)"

definition init_client :: "constructor \<Rightarrow> environ \<Rightarrow> llm_client \<Rightarrow> llm_client" where
  "init_client ctor env self =
     (let openai_key = getenv_default env ''OPENAI_API_KEY'' '''';
          zai_key = getenv_default env ''ZAI_API_KEY'' '''';
          provider_pref = getenv_default env ''AI_PROVIDER'' ''auto''
      in if (provider_pref = ''zai'' \<or> provider_pref = ''auto'') \<and> zai_key \<noteq> '''' then
           (case try_zai ctor env self of
              Some self' \<Rightarrow> self'
            | None \<Rightarrow> fall_back_to_openai ctor env self)
         else fall_back_to_openai ctor env self)"

definition new_client :: "constructor \<Rightarrow> environ \<Rightarrow> llm_client" where
  "new_client ctor env = init_client ctor env fresh_client"

subsection \<open>\<open>LLMClient.complete\<close>\<close>

text \<open>
  A chat request as assembled in \<open>params\<close>. The temperature is a float that is only
  passed through, so its type is a parameter of the model.
\<close>

record 't request =
  req_model :: "string option"
  req_messages :: "(string \<times> string) list"
  req_temperature :: 't
  req_max_tokens :: int
  req_response_format_json :: bool
  req_thinking_disabled :: bool

text \<open>
  What \<open>self.client.chat.completions.create\<close> hands back: the first choice's
  \<open>content\<close>, its \<open>reasoning_content\<close> attribute when the message has one
  (\<open>None\<close> here says that \<open>hasattr\<close> is false), and the token counts when \<open>usage\<close> is set.
  \<open>ApiRaised msg\<close> stands for any exception raised inside the \<open>try\<close> block, with
  \<open>str(e) = msg\<close>.
\<close>

record api_reply =
  reply_content :: "string option"
  reply_reasoning_content :: "string option option"
  reply_usage :: "(int \<times> int) option"

datatype api_outcome = ApiRaised string | ApiReply api_reply

text \<open>
  The dict returned by \<open>complete\<close>: \<open>Completed c p k\<close> is
  \<open>{'success': True, 'content': c, 'usage': {'prompt_tokens': p, 'completion_tokens': k}}\<close>
  and \<open>Failed msg\<close> is \<open>{'success': False, 'error': msg, 'content': None}\<close>.
\<close>

datatype llm_result = Completed "string option" int int | Failed string

fun success :: "llm_result \<Rightarrow> bool" where
  "success (Completed c p k) = True"
| "success (Failed msg) = False"

text \<open>
  The outside world: the requests sent so far, oldest first. The remote service is a
  parameter \<open>api\<close>: the outcome of a request given the requests sent before it.
\<close>

type_synonym 't world = "'t request list"
type_synonym 't service = "'t request list \<Rightarrow> 't request \<Rightarrow> api_outcome"

definition build_messages :: "string \<Rightarrow> string option \<Rightarrow> (string \<times> string) list" where
  "build_messages prompt system_prompt =
     (case system_prompt of
        None \<Rightarrow> []
      | Some sp \<Rightarrow> if sp \<noteq> [] then [(''system'', sp)] else [])
     @ [(''user'', prompt)]"

definition reply_result :: "api_reply \<Rightarrow> llm_result" where
  "reply_result rep =
     (let content = reply_content rep;
          content' = (if (content = None \<or> content = Some [])
                         \<and> reply_reasoning_content rep \<noteq> None
                      then the (reply_reasoning_content rep) else content)
      in case reply_usage rep of
           Some (p, k) \<Rightarrow> Completed content' p k
         | None \<Rightarrow> Completed content' 0 0)"

definition complete ::
  "'t service \<Rightarrow> llm_client \<Rightarrow> string \<Rightarrow> string option \<Rightarrow> 't \<Rightarrow> int \<Rightarrow> bool \<Rightarrow>
   't world \<Rightarrow> llm_result \<times> 't world" where
  "complete api self prompt system_prompt temperature max_tokens json_mode w =
     (if client self = None then (Failed ''LLM not configured'', w)
      else
        let params = \<lparr>req_model = model self,
                      req_messages = build_messages prompt system_prompt,
                      req_temperature = temperature,
                      req_max_tokens = max_tokens,
                      req_response_format_json = (json_mode \<and> provider self = Some Openai),
                      req_thinking_disabled = (provider self = Some Zai)\<rparr>
        in case api w params of
             ApiRaised msg \<Rightarrow> (Failed msg, w @ [params])
           | ApiReply rep \<Rightarrow> (reply_result rep, w @ [params]))"

subsection \<open>\<open>LLMClient.complete_with_retry\<close>\<close>

text \<open>
  The loop \<open>for attempt in range(retries + 1)\<close> over an arbitrary step \<open>c\<close> (one
  invocation of \<open>complete\<close>, which maps the world to a result and a new world). The
  first argument counts the iterations left. The loop returns the results of the
  invocations it made, in order, and the world after them: it stops right after a
  result with a true \<open>success\<close> field, as the \<open>return\<close> inside the loop does.
\<close>

fun retry_loop :: "('w \<Rightarrow> llm_result \<times> 'w) \<Rightarrow> nat \<Rightarrow> 'w \<Rightarrow> llm_result list \<times> 'w" where
  "retry_loop c 0 w = ([], w)"
| "retry_loop c (Suc n) w =
     (case c w of (result, w') \<Rightarrow>
        if success result then ([result], w')
        else (case retry_loop c n w' of (results, w'') \<Rightarrow> (result # results, w'')))"

text \<open>
  Both \<open>return result\<close> statements return the result of the latest invocation. When
  \<open>range(retries + 1)\<close> is empty, \<open>result\<close> was never bound and the final \<open>return\<close>
  raises \<open>UnboundLocalError\<close>.
\<close>

definition retry_with ::
  "('w \<Rightarrow> llm_result \<times> 'w) \<Rightarrow> int \<Rightarrow> 'w \<Rightarrow> (py_error + llm_result) \<times> 'w" where
  "retry_with c retries w =
     (case retry_loop c (nat (retries + 1)) w of
        (results, w') \<Rightarrow>
          (if results = [] then Inl UnboundLocalError else Inr (last results), w'))"

definition complete_with_retry ::
  "'t service \<Rightarrow> llm_client \<Rightarrow> string \<Rightarrow> string option \<Rightarrow> int \<Rightarrow> 't \<Rightarrow> int \<Rightarrow> bool \<Rightarrow>
   't world \<Rightarrow> (py_error + llm_result) \<times> 't world" where
  "complete_with_retry api self prompt system_prompt retries temperature max_tokens json_mode =
     retry_with (complete api self prompt system_prompt temperature max_tokens json_mode) retries"

text \<open>The results of the invocations of \<open>complete\<close> made by one call, in order.\<close>

definition retry_invocations ::
  "'t service \<Rightarrow> llm_client \<Rightarrow> string \<Rightarrow> string option \<Rightarrow> int \<Rightarrow> 't \<Rightarrow> int \<Rightarrow> bool \<Rightarrow>
   't world \<Rightarrow> llm_result list" where
  "retry_invocations api self prompt system_prompt retries temperature max_tokens json_mode w =
     fst (retry_loop (complete api self prompt system_prompt temperature max_tokens json_mode)
            (nat (retries + 1)) w)"

subsection \<open>Sample environments and services\<close>

text \<open>Concrete inputs on which the definitions above are evaluated further below.\<close>

definition accepting_ctor :: constructor where
  "accepting_ctor key url = Some \<lparr>api_key = key, base_url = url\<rparr>"

definition env_zai_only :: environ where
  "env_zai_only = [''ZAI_API_KEY'' \<mapsto> ''zk'']"

definition env_empty :: environ where
  "env_empty = Map.empty"

text \<open>A service on which every request fails, and one that always answers.\<close>

definition failing_service :: "unit service" where
  "failing_service w req = ApiRaised ''timeout''"

definition answering_service :: "unit service" where
  "answering_service w req =
     ApiReply \<lparr>reply_content = Some ''{}'', reply_reasoning_content = None,
               reply_usage = Some (7, 2)\<rparr>"

text \<open>A service whose first two requests fail and whose third is answered.\<close>

definition flaky_service :: "unit service" where
  "flaky_service w req = (if length w < 2 then ApiRaised ''timeout'' else answering_service w req)"





section \<open>Python strings\<close>

text \<open>
  A Python \<open>str\<close> is a sequence of Unicode code points: \<open>len\<close>, indexing and slicing
  count code points. A string is therefore a list of code points, each a natural number.
  \<open>py\<close> turns a literal into such a string.
\<close>

type_synonym pystr = "nat list"

definition py :: "string \<Rightarrow> pystr" where
  "py s = map of_char s"

text \<open>
  The code points for which \<open>str.isspace\<close> holds. \<open>str.strip()\<close> removes exactly these,
  and the class \<open>\s\<close> of the \<open>re\<close> module matches exactly these in a \<open>str\<close> pattern.
  The table belongs to the interpreter, not to this repository.
\<close>

definition is_space :: "nat \<Rightarrow> bool" where
  "is_space c \<longleftrightarrow>
     (9 \<le> c \<and> c \<le> 13) \<or> (28 \<le> c \<and> c \<le> 32) \<or> c = 133 \<or> c = 160 \<or> c = 5760
     \<or> (8192 \<le> c \<and> c \<le> 8202) \<or> c = 8232 \<or> c = 8233 \<or> c = 8239 \<or> c = 8287
     \<or> c = 12288"

text \<open>\<open>s.strip()\<close>\<close>

definition strip :: "pystr \<Rightarrow> pystr" where
  "strip s = rev (dropWhile is_space (rev (dropWhile is_space s)))"

text \<open>
  How a slice bound is read against a sequence of length \<open>n\<close>: a negative bound counts
  from the end, and every bound is clamped into \<open>0..n\<close>.
\<close>

definition adjust_index :: "nat \<Rightarrow> int \<Rightarrow> nat" where
  "adjust_index n i = (if i < 0 then nat (max 0 (i + int n)) else min (nat i) n)"

text \<open>\<open>s[start:end]\<close>\<close>

definition py_slice :: "'a list \<Rightarrow> int \<Rightarrow> int \<Rightarrow> 'a list" where
  "py_slice s start end =
     (let lo = adjust_index (length s) start; hi = adjust_index (length s) end
      in take (hi - lo) (drop lo s))"

text \<open>
  \<open>s.rfind(sub, start, end)\<close>: the highest index \<open>p\<close> at which \<open>sub\<close> occurs with
  \<open>s[start:end]\<close> containing the whole occurrence, or \<open>-1\<close> when there is none.
\<close>

definition occurs_at :: "'a list \<Rightarrow> 'a list \<Rightarrow> nat \<Rightarrow> bool" where
  "occurs_at s sub p \<longleftrightarrow> take (length sub) (drop p s) = sub"

definition py_rfind :: "'a list \<Rightarrow> 'a list \<Rightarrow> int \<Rightarrow> int \<Rightarrow> int" where
  "py_rfind s sub start end =
     (let lo = adjust_index (length s) start; hi = adjust_index (length s) end;
          found = filter (occurs_at s sub) [lo ..< Suc hi - length sub]
      in if found = [] then - 1 else int (last found))"

section \<open>Transcript chunking (\<open>utils/youtube.py\<close>)\<close>

text \<open>
  The body of one iteration of the \<open>while\<close> loop of \<open>chunk_transcript\<close> up to the slice:
  the end of the window that starts at \<open>start\<close>. The code point 10 is the newline, 46
  the full stop and 32 the space.
\<close>

definition window_end :: "pystr \<Rightarrow> int \<Rightarrow> int \<Rightarrow> int" where
  "window_end transcript chunk_size start =
     (let end = start + chunk_size
      in if end < int (length transcript) then
           (let newline_pos = py_rfind transcript [10] (end - 200) end
            in if newline_pos \<noteq> - 1 then newline_pos + 1
               else (let sentence_end = py_rfind transcript [46, 32] (end - 200) end
                     in if sentence_end \<noteq> - 1 then sentence_end + 2 else end))
         else end)"

text \<open>
  The \<open>while\<close> loop. It need not terminate (the start of the next window can be at or
  before the start of this one), so the loop is a partial function: \<open>None\<close> says that
  the loop runs forever.
\<close>

partial_function (option) chunk_loop ::
  "pystr \<Rightarrow> int \<Rightarrow> int \<Rightarrow> int \<Rightarrow> pystr list \<Rightarrow> pystr list option" where
  "chunk_loop transcript chunk_size overlap start chunks =
     (if start < int (length transcript) then
        (let end = window_end transcript chunk_size start
         in chunk_loop transcript chunk_size overlap (end - overlap)
              (chunks @ [strip (py_slice transcript start end)]))
      else Some chunks)"

declare chunk_loop.simps [code]

definition chunk_transcript :: "pystr \<Rightarrow> int \<Rightarrow> int \<Rightarrow> pystr list option" where
  "chunk_transcript transcript chunk_size overlap =
     (if int (length transcript) \<le> chunk_size then Some [transcript]
      else chunk_loop transcript chunk_size overlap 0 [])"

text \<open>
  The windows \<open>(start, end)\<close> that the loop slices, in order: the same loop, recording
  the bounds in place of the slices.
\<close>

partial_function (option) window_loop ::
  "pystr \<Rightarrow> int \<Rightarrow> int \<Rightarrow> int \<Rightarrow> (int \<times> int) list \<Rightarrow> (int \<times> int) list option" where
  "window_loop transcript chunk_size overlap start windows =
     (if start < int (length transcript) then
        (let end = window_end transcript chunk_size start
         in window_loop transcript chunk_size overlap (end - overlap)
              (windows @ [(start, end)]))
      else Some windows)"

declare window_loop.simps [code]

definition window_slice :: "pystr \<Rightarrow> int \<times> int \<Rightarrow> pystr" where
  "window_slice transcript w = strip (py_slice transcript (fst w) (snd w))"

text \<open>The position \<open>p\<close> of the transcript lies in the window \<open>w\<close>.\<close>

definition in_window :: "int \<Rightarrow> int \<times> int \<Rightarrow> bool" where
  "in_window p w \<longleftrightarrow> fst w \<le> p \<and> p < snd w"

text \<open>
  A list of windows is a chain for \<open>chunk_size\<close> and \<open>overlap\<close> when the first window
  begins at 0, every window is non-empty and spans at most \<open>chunk_size\<close> positions, and
  every later window begins \<open>overlap\<close> positions before the end of the one before it.
\<close>

definition windows_chain :: "int \<Rightarrow> int \<Rightarrow> (int \<times> int) list \<Rightarrow> bool" where
  "windows_chain chunk_size overlap ws \<longleftrightarrow>
     (\<forall>w \<in> set ws. 0 \<le> fst w \<and> fst w < snd w \<and> snd w - fst w \<le> chunk_size)
     \<and> (\<forall>i. Suc i < length ws \<longrightarrow> fst (ws ! Suc i) = snd (ws ! i) - overlap)
     \<and> (ws \<noteq> [] \<longrightarrow> fst (hd ws) = 0)"

text \<open>Every position below \<open>n\<close> lies in one of the windows.\<close>

definition windows_cover :: "int \<Rightarrow> (int \<times> int) list \<Rightarrow> bool" where
  "windows_cover n ws \<longleftrightarrow> (\<forall>p. 0 \<le> p \<and> p < n \<longrightarrow> (\<exists>w \<in> set ws. in_window p w))"

section \<open>JSON values\<close>

text \<open>
  The values that \<open>json.loads\<close> builds. A float is either a finite number, given by its
  exact value, or one of the three constants that \<open>json.loads\<close> accepts. A dict keeps
  its entries in insertion order, so it is a list of pairs whose first match is the
  entry of a key.
\<close>

datatype pyfloat = Finite rat | NaN | PosInf | NegInf

datatype json =
    JNull
  | JBool bool
  | JInt int
  | JFloat pyfloat
  | JStr pystr
  | JArr "json list"
  | JObj "(pystr \<times> json) list"

type_synonym pydict = "(pystr \<times> json) list"

text \<open>The truth value of an object, as \<open>not x\<close> and \<open>if x\<close> read it.\<close>

fun truthy :: "json \<Rightarrow> bool" where
  "truthy JNull = False"
| "truthy (JBool b) = b"
| "truthy (JInt i) = (i \<noteq> 0)"
| "truthy (JFloat (Finite q)) = (q \<noteq> 0)"
| "truthy (JFloat f) = True"
| "truthy (JStr s) = (s \<noteq> [])"
| "truthy (JArr xs) = (xs \<noteq> [])"
| "truthy (JObj kvs) = (kvs \<noteq> [])"

text \<open>\<open>d.get(k)\<close>, \<open>k in d\<close>, \<open>d[k] = v\<close> and \<open>d.setdefault(k, v)\<close> on a dict.\<close>

definition dict_get :: "pydict \<Rightarrow> pystr \<Rightarrow> json option" where
  "dict_get d k = map_of d k"

definition dict_has :: "pydict \<Rightarrow> pystr \<Rightarrow> bool" where
  "dict_has d k \<longleftrightarrow> dict_get d k \<noteq> None"

definition dict_set :: "pydict \<Rightarrow> pystr \<Rightarrow> json \<Rightarrow> pydict" where
  "dict_set d k v = AList.update k v d"

definition setdefault :: "pydict \<Rightarrow> pystr \<Rightarrow> json \<Rightarrow> pydict" where
  "setdefault d k v = (if dict_has d k then d else dict_set d k v)"

text \<open>Running a step that can raise over a list, left to right, up to the first error.\<close>

fun map_result :: "('a \<Rightarrow> 'e + 'b) \<Rightarrow> 'a list \<Rightarrow> 'e + 'b list" where
  "map_result f [] = Inr []"
| "map_result f (x # xs) =
     (case f x of
        Inl e \<Rightarrow> Inl e
      | Inr y \<Rightarrow> (case map_result f xs of Inl e \<Rightarrow> Inl e | Inr ys \<Rightarrow> Inr (y # ys)))"

text \<open>
  The elements that \<open>for x in v\<close> yields: those of a list, the keys of a dict, the
  one-character strings of a string. Any other JSON value is not iterable.
\<close>

fun py_iter :: "json \<Rightarrow> py_error + json list" where
  "py_iter (JArr xs) = Inr xs"
| "py_iter (JObj kvs) = Inr (map (\<lambda>kv. JStr (fst kv)) kvs)"
| "py_iter (JStr s) = Inr (map (\<lambda>c. JStr [c]) s)"
| "py_iter v = Inl TypeError"

section \<open>Rubric validation (\<open>utils/rubric_parser.py\<close>)\<close>

subsection \<open>\<open>_validate_rubric\<close>\<close>

text \<open>
  A loop \<open>for x in v: f(x)\<close> whose body changes \<open>x\<close> in place. The elements of a list
  are the objects themselves, so the list holds the changed elements afterwards. The
  keys of a dict and the characters of a string are immutable strings: the body runs
  on each of them (and can raise), and \<open>v\<close> stays as it is.
\<close>

definition for_each_in_place :: "(json \<Rightarrow> py_error + json) \<Rightarrow> json \<Rightarrow> py_error + json" where
  "for_each_in_place f v =
     (case v of
        JArr xs \<Rightarrow> (case map_result f xs of Inl e \<Rightarrow> Inl e | Inr ys \<Rightarrow> Inr (JArr ys))
      | _ \<Rightarrow> (case py_iter v of
                Inl e \<Rightarrow> Inl e
              | Inr xs \<Rightarrow> (case map_result f xs of Inl e \<Rightarrow> Inl e | Inr ys \<Rightarrow> Inr v)))"

text \<open>
  \<open>for x in d.get(k, []): f(x)\<close>: the loop over the value stored under \<open>k\<close>, which
  is put back changed; with no entry for \<open>k\<close> the loop runs over a fresh empty list.
\<close>

definition for_each_at :: "(json \<Rightarrow> py_error + json) \<Rightarrow> pystr \<Rightarrow> pydict \<Rightarrow> py_error + pydict" where
  "for_each_at f k d =
     (case dict_get d k of
        None \<Rightarrow> Inr d
      | Some v \<Rightarrow> (case for_each_in_place f v of
                    Inl e \<Rightarrow> Inl e
                  | Inr v' \<Rightarrow> Inr (dict_set d k v')))"

text \<open>
  \<open>action.setdefault('importance', 'important')\<close>: only a dict has \<open>setdefault\<close>.
\<close>

definition validate_action :: "json \<Rightarrow> py_error + json" where
  "validate_action action =
     (case action of
        JObj d \<Rightarrow> Inr (JObj (setdefault d (py ''importance'') (JStr (py ''important''))))
      | _ \<Rightarrow> Inl AttributeError)"

text \<open>The body of the loop over the phases.\<close>

definition validate_phase :: "json \<Rightarrow> py_error + json" where
  "validate_phase phase =
     (case phase of
        JObj d \<Rightarrow>
          (let d1 = setdefault d (py ''key_actions'') (JArr []);
               d2 = setdefault d1 (py ''success_criteria'') (JArr []);
               d3 = setdefault d2 (py ''common_mistakes'') (JArr [])
           in case for_each_at validate_action (py ''key_actions'') d3 of
                Inl e \<Rightarrow> Inl e
              | Inr d4 \<Rightarrow> Inr (JObj d4))
      | _ \<Rightarrow> Inl AttributeError)"

text \<open>
  The loop over \<open>required_fields\<close>. On anything but a dict, either the test
  \<open>field not in rubric\<close> or the subscript that follows it raises \<open>TypeError\<close>.
\<close>

definition fill_required :: "pydict \<Rightarrow> pystr \<Rightarrow> pydict" where
  "fill_required d field =
     (if \<not> dict_has d field \<or> \<not> truthy (the (dict_get d field))
      then dict_set d field (JStr (py ''unknown'')) else d)"

definition required_fields :: "pystr list" where
  "required_fields = [py ''title'', py ''difficulty'', py ''archetype'']"

definition benchmark_keys :: "pystr list" where
  "benchmark_keys =
     [py ''feudal_age'', py ''castle_age'', py ''imperial_age'', py ''second_tc'',
      py ''third_tc'', py ''villagers_at_10min'', py ''villagers_at_castle'']"

text \<open>
  The benchmarks: after \<open>rubric.setdefault('benchmarks', {})\<close> the stored value gets a
  \<open>None\<close> for each missing key; a value that is not a dict has no \<open>setdefault\<close>.
\<close>

definition fill_benchmarks :: "pydict \<Rightarrow> py_error + pydict" where
  "fill_benchmarks d =
     (let d1 = setdefault d (py ''benchmarks'') (JObj [])
      in case dict_get d1 (py ''benchmarks'') of
           Some (JObj b) \<Rightarrow>
             Inr (dict_set d1 (py ''benchmarks'')
                    (JObj (foldl (\<lambda>b key. setdefault b key JNull) b benchmark_keys)))
         | _ \<Rightarrow> Inl AttributeError)"

text \<open>
  The \<open>_meta\<close> entry; \<open>now\<close> is the text of \<open>datetime.now().isoformat()\<close>, a parameter.
\<close>

definition meta_entry :: "pystr \<Rightarrow> json" where
  "meta_entry now = JObj [(py ''extracted_at'', JStr now), (py ''version'', JStr (py ''1.0''))]"

definition ensure_arrays :: "pydict \<Rightarrow> pydict" where
  "ensure_arrays d =
     (let d1 = setdefault d (py ''civilizations'') (JArr []);
          d2 = setdefault d1 (py ''map_types'') (JArr [JStr (py ''any'')]);
          d3 = setdefault d2 (py ''phases'') (JArr []);
          d4 = setdefault d3 (py ''decision_points'') (JArr []);
          d5 = setdefault d4 (py ''counters'') (JObj [])
      in setdefault d5 (py ''key_insights'') (JArr []))"

definition validate_rubric :: "pystr \<Rightarrow> json \<Rightarrow> py_error + pydict" where
  "validate_rubric now rubric =
     (case rubric of
        JObj d \<Rightarrow>
          (let d1 = foldl fill_required d required_fields;
               d2 = ensure_arrays d1
           in case for_each_at validate_phase (py ''phases'') d2 of
                Inl e \<Rightarrow> Inl e
              | Inr d3 \<Rightarrow>
                  (case fill_benchmarks d3 of
                     Inl e \<Rightarrow> Inl e
                   | Inr d4 \<Rightarrow> Inr (dict_set d4 (py ''_meta'') (meta_entry now))))
      | _ \<Rightarrow> Inl TypeError)"

subsection \<open>\<open>parse_rubric_json\<close>\<close>

text \<open>
  \<open>sub in s\<close> and the first index at or after \<open>start\<close> at which \<open>sub\<close> occurs in \<open>s\<close>.
\<close>

definition py_find :: "'a list \<Rightarrow> 'a list \<Rightarrow> nat \<Rightarrow> nat option" where
  "py_find s sub start =
     (case filter (occurs_at s sub) [start ..< Suc (length s) - length sub] of
        [] \<Rightarrow> None
      | p # ps \<Rightarrow> Some p)"

definition py_contains :: "'a list \<Rightarrow> 'a list \<Rightarrow> bool" where
  "py_contains s sub \<longleftrightarrow> py_find s sub 0 \<noteq> None"

text \<open>
  \<open>re.search(opening + r'(.*?)\n```', content, re.DOTALL)\<close> for a literal \<open>opening\<close>,
  giving group 1 of the match. The search takes the leftmost start at which a match
  exists, and the lazy group ends at the first closing fence after the opening. When the
  first occurrence of the opening has no closing fence after it, no later one has, so
  the leftmost match starts at the first occurrence of the opening.
\<close>

definition search_fence :: "pystr \<Rightarrow> pystr \<Rightarrow> pystr option" where
  "search_fence opening content =
     (case py_find content opening 0 of
        None \<Rightarrow> None
      | Some i \<Rightarrow>
          (let body = i + length opening
           in case py_find content (10 # py ''```'') body of
                None \<Rightarrow> None
              | Some j \<Rightarrow> Some (take (j - body) (drop body content))))"

definition extract_fenced :: "pystr \<Rightarrow> pystr" where
  "extract_fenced content =
     (if py_contains content (py ''```json'') then
        (case search_fence (py ''```json'' @ [10]) content of
           Some body \<Rightarrow> body | None \<Rightarrow> content)
      else if py_contains content (py ''```'') then
        (case search_fence (py ''```'' @ [10]) content of
           Some body \<Rightarrow> body | None \<Rightarrow> content)
      else content)"

text \<open>
  \<open>json.loads\<close> is library code and a parameter \<open>loads\<close> of the model, with the three
  ways in which a call of it ends: it returns the decoded value; it raises
  \<open>JSONDecodeError\<close>, which the source catches and turns into a \<open>ValueError\<close>; or it
  raises another exception, which the source does not catch. The decoder raises
  \<open>RecursionError\<close> on a text that nests too deeply, and a \<open>ValueError\<close> that is not a
  \<open>JSONDecodeError\<close> on an integer with more digits than the interpreter converts.
\<close>

datatype load_outcome = Loaded json | DecodeError | LoadRaised py_error

type_synonym json_loader = "pystr \<Rightarrow> load_outcome"

definition parse_rubric_json :: "json_loader \<Rightarrow> pystr \<Rightarrow> pystr \<Rightarrow> py_error + pydict" where
  "parse_rubric_json loads now content =
     (case loads (strip (extract_fenced content)) of
        DecodeError \<Rightarrow> Inl ValueError
      | LoadRaised e \<Rightarrow> Inl e
      | Loaded rubric \<Rightarrow> validate_rubric now rubric)"

subsection \<open>The shape of a validated rubric\<close>

text \<open>The elements of a value that can be iterated; none for a value that cannot.\<close>

definition elements :: "json \<Rightarrow> json list" where
  "elements v = (case py_iter v of Inr xs \<Rightarrow> xs | Inl e \<Rightarrow> [])"

definition action_ok :: "json \<Rightarrow> bool" where
  "action_ok action = (case action of JObj d \<Rightarrow> dict_has d (py ''importance'') | _ \<Rightarrow> False)"

definition phase_ok :: "json \<Rightarrow> bool" where
  "phase_ok phase =
     (case phase of
        JObj d \<Rightarrow>
          (case dict_get d (py ''key_actions'') of
             Some actions \<Rightarrow> list_all action_ok (elements actions)
           | None \<Rightarrow> False)
          \<and> dict_has d (py ''success_criteria'') \<and> dict_has d (py ''common_mistakes'')
      | _ \<Rightarrow> False)"

definition array_fields :: "pystr list" where
  "array_fields =
     [py ''civilizations'', py ''map_types'', py ''phases'', py ''decision_points'',
      py ''counters'', py ''key_insights'']"

definition field_filled :: "pydict \<Rightarrow> pystr \<Rightarrow> bool" where
  "field_filled d k = (case dict_get d k of Some v \<Rightarrow> truthy v | None \<Rightarrow> False)"

definition rubric_shape :: "pydict \<Rightarrow> bool" where
  "rubric_shape r \<longleftrightarrow>
     list_all (field_filled r) required_fields
     \<and> list_all (dict_has r) array_fields
     \<and> (case dict_get r (py ''benchmarks'') of
          Some (JObj b) \<Rightarrow> list_all (dict_has b) benchmark_keys
        | _ \<Rightarrow> False)
     \<and> (case dict_get r (py ''phases'') of
          Some phases \<Rightarrow> list_all phase_ok (elements phases)
        | None \<Rightarrow> False)"

text \<open>
  A fragment of \<open>json.loads\<close>, for evaluating the parser on concrete texts. It raises
  \<open>RecursionError\<close> on a text that opens 100000 lists or more one inside the other,
  whatever follows them; it decodes the four texts below as \<open>json.loads\<close> does; and it
  rejects every other text.
\<close>

definition sample_rubric_text :: pystr where
  "sample_rubric_text = py ''{\"title\":\"Fast Castle\",\"phases\":[{\"key_actions\":[{}]}]}''"

definition sample_rubric_value :: json where
  "sample_rubric_value =
     JObj [(py ''title'', JStr (py ''Fast Castle'')),
           (py ''phases'', JArr [JObj [(py ''key_actions'', JArr [JObj []])]])]"

definition sample_loads :: json_loader where
  "sample_loads text =
     (if 100000 \<le> length (takeWhile (\<lambda>c. c = 91) text) then LoadRaised RecursionError
      else if text = py ''{}'' then Loaded (JObj [])
      else if text = py ''[]'' then Loaded (JArr [])
      else if text = py ''5'' then Loaded (JInt 5)
      else if text = sample_rubric_text then Loaded sample_rubric_value
      else DecodeError)"

text \<open>
  Two deeply nested texts: 100000 opening brackets, which is not valid JSON, and the
  same followed by 100000 closing brackets, which is.
\<close>

definition deep_open :: pystr where
  "deep_open = replicate 100000 91"

definition deep_lists :: pystr where
  "deep_lists = replicate 100000 91 @ replicate 100000 93"

subsection \<open>The values on which \<open>_validate_rubric\<close> returns\<close>

text \<open>
  A loop whose body has no meaning on a string runs through on a list of suitable
  elements, on the empty dict and on the empty string, and on nothing else.
\<close>

definition accepts_each :: "(json \<Rightarrow> bool) \<Rightarrow> json \<Rightarrow> bool" where
  "accepts_each P v =
     (case v of JArr xs \<Rightarrow> list_all P xs | JObj kvs \<Rightarrow> kvs = [] | JStr s \<Rightarrow> s = []
      | _ \<Rightarrow> False)"

definition action_accepted :: "json \<Rightarrow> bool" where
  "action_accepted action = (case action of JObj d \<Rightarrow> True | _ \<Rightarrow> False)"

definition phase_accepted :: "json \<Rightarrow> bool" where
  "phase_accepted phase =
     (case phase of
        JObj d \<Rightarrow> (case dict_get d (py ''key_actions'') of
                    None \<Rightarrow> True
                  | Some actions \<Rightarrow> accepts_each action_accepted actions)
      | _ \<Rightarrow> False)"

definition rubric_accepted :: "json \<Rightarrow> bool" where
  "rubric_accepted rubric =
     (case rubric of
        JObj d \<Rightarrow>
          (case dict_get d (py ''phases'') of
             None \<Rightarrow> True
           | Some phases \<Rightarrow> accepts_each phase_accepted phases)
          \<and> (case dict_get d (py ''benchmarks'') of
               None \<Rightarrow> True
             | Some (JObj b) \<Rightarrow> True
             | Some other \<Rightarrow> False)
      | _ \<Rightarrow> False)"

section \<open>Rubric ids and saving (\<open>generate_rubric_id\<close>, \<open>save_rubric\<close>)\<close>

text \<open>
  \<open>title.lower()\<close>. On the ASCII range \<open>str.lower\<close> maps \<open>A..Z\<close> to \<open>a..z\<close> and
  leaves every other character alone. What it does to a character outside ASCII is
  given by the interpreter's Unicode tables, a parameter \<open>tab\<close> of the model:
  \<open>tab s i\<close> is the lower-case text for the character at position \<open>i\<close> of \<open>s\<close> (it can
  depend on the neighbours and can be more than one character long).
\<close>

type_synonym lower_table = "pystr \<Rightarrow> nat \<Rightarrow> pystr"

definition ascii_lower :: "nat \<Rightarrow> nat" where
  "ascii_lower c = (if 65 \<le> c \<and> c \<le> 90 then c + 32 else c)"

definition py_lower :: "lower_table \<Rightarrow> pystr \<Rightarrow> pystr" where
  "py_lower tab s =
     concat (map (\<lambda>i. if s ! i < 128 then [ascii_lower (s ! i)] else tab s i) [0 ..< length s])"

text \<open>
  The characters that \<open>re.sub(r'[^a-zA-Z0-9\s]', '', ...)\<close> keeps: the ASCII letters and
  digits, and the whitespace of \<open>\s\<close>.
\<close>

definition slug_keeps :: "nat \<Rightarrow> bool" where
  "slug_keeps c \<longleftrightarrow>
     (97 \<le> c \<and> c \<le> 122) \<or> (65 \<le> c \<and> c \<le> 90) \<or> (48 \<le> c \<and> c \<le> 57) \<or> is_space c"

text \<open>
  \<open>re.sub(r'\s+', '_', ...)\<close>: every maximal run of whitespace becomes one underscore
  (code point 95).
\<close>

function sub_space_runs :: "pystr \<Rightarrow> pystr" where
  "sub_space_runs [] = []"
| "sub_space_runs (c # cs) =
     (if is_space c then 95 # sub_space_runs (dropWhile is_space cs)
      else c # sub_space_runs cs)"
  by pat_completeness auto
termination
  by (relation "measure length") (auto simp: le_imp_less_Suc length_dropWhile_le)

text \<open>
  \<open>generate_rubric_id\<close>. The parameter \<open>author\<close> is whatever the caller passes; the
  body never reads it.
\<close>

definition generate_rubric_id :: "lower_table \<Rightarrow> pystr \<Rightarrow> 'a \<Rightarrow> pystr" where
  "generate_rubric_id tab title author =
     (let clean = filter slug_keeps (py_lower tab title);
          clean = sub_space_runs (strip clean);
          clean = take 50 clean
      in clean)"

text \<open>
  The slug as the specification words it: lower-case the title, delete every character
  that is not alphanumeric or whitespace, replace each whitespace run by one underscore.
\<close>

definition spec_slug :: "lower_table \<Rightarrow> pystr \<Rightarrow> pystr" where
  "spec_slug tab title = sub_space_runs (filter slug_keeps (py_lower tab title))"

text \<open>The characters of a slug: \<open>a..z\<close>, \<open>0..9\<close> and the underscore.\<close>

definition is_slug_char :: "nat \<Rightarrow> bool" where
  "is_slug_char c \<longleftrightarrow> (97 \<le> c \<and> c \<le> 122) \<or> (48 \<le> c \<and> c \<le> 57) \<or> c = 95"

text \<open>Removing the underscores at both ends.\<close>

definition trim_underscores :: "pystr \<Rightarrow> pystr" where
  "trim_underscores s = rev (dropWhile (\<lambda>c. c = 95) (rev (dropWhile (\<lambda>c. c = 95) s)))"

text \<open>
  A property of the Unicode tables: the lower-case text of a character outside ASCII
  holds no ASCII capital letter.
\<close>

definition lower_table_ok :: "lower_table \<Rightarrow> bool" where
  "lower_table_ok tab \<longleftrightarrow>
     (\<forall>s i d. i < length s \<and> 128 \<le> s ! i \<and> d \<in> set (tab s i) \<longrightarrow> \<not> (65 \<le> d \<and> d \<le> 90))"

text \<open>
  \<open>save_rubric\<close>. Three pieces of the standard library are parameters of the model.
  \<open>path_of p\<close> is the text of \<open>Path(p)\<close>, which names the same file as \<open>p\<close>.
  \<open>dump rubric\<close> is how \<open>json.dump(rubric, f, indent=2, ensure_ascii=False)\<close> ends on
  the file opened with \<open>encoding='utf-8'\<close>: it returns after writing the whole document
  or it raises after writing a part of it, for instance \<open>UnicodeEncodeError\<close> at a
  string with a lone surrogate, which \<open>ensure_ascii=False\<close> hands to the encoder as it
  is. The file system maps a path to what the file there holds: a whole document or a
  part of one.

  \<open>library_dir\<close> is the directory \<open>rubric_library\<close> next to the script. A title that is
  not a string has no \<open>lower\<close> method. An \<open>output_path\<close> of \<open>None\<close> or \<open>''\<close> counts as
  not given. Errors of the operating system (\<open>mkdir\<close>, \<open>open\<close>) are outside the model.
  The result is what the call returns or raises, the rubric after the call (its \<open>id\<close>
  entry is set before the file is opened), and the file system after the call.
\<close>

datatype dump_outcome = Dumped | DumpRaised py_error

type_synonym json_dumper = "pydict \<Rightarrow> dump_outcome"

datatype file_content = Document pydict | Partial

type_synonym filesystem = "pystr \<Rightarrow> file_content option"

definition library_file :: "pystr \<Rightarrow> pystr \<Rightarrow> pystr" where
  "library_file library_dir rubric_id = library_dir @ [47] @ rubric_id @ py ''.json''"

text \<open>\<open>rubric.get('title', 'untitled')\<close> and \<open>rubric.get('video_author', 'unknown')\<close>.\<close>

definition rubric_title :: "pydict \<Rightarrow> json" where
  "rubric_title rubric =
     (case dict_get rubric (py ''title'') of None \<Rightarrow> JStr (py ''untitled'') | Some t \<Rightarrow> t)"

definition rubric_author :: "pydict \<Rightarrow> json" where
  "rubric_author rubric =
     (case dict_get rubric (py ''video_author'') of None \<Rightarrow> JStr (py ''unknown'') | Some a \<Rightarrow> a)"

definition save_rubric ::
  "lower_table \<Rightarrow> (pystr \<Rightarrow> pystr) \<Rightarrow> json_dumper \<Rightarrow> pystr \<Rightarrow> pydict \<Rightarrow> pystr option \<Rightarrow>
   filesystem \<Rightarrow> (py_error + pystr) \<times> pydict \<times> filesystem" where
  "save_rubric tab path_of dump library_dir rubric output_path fs =
     (case rubric_title rubric of
        JStr title \<Rightarrow>
          (let rubric_id = generate_rubric_id tab title (rubric_author rubric);
               rubric' = dict_set rubric (py ''id'') (JStr rubric_id);
               filepath = (case output_path of
                             Some p \<Rightarrow> if p \<noteq> [] then path_of p
                                       else library_file library_dir rubric_id
                           | None \<Rightarrow> library_file library_dir rubric_id)
           in case dump rubric' of
                Dumped \<Rightarrow> (Inr filepath, rubric', fs(filepath \<mapsto> Document rubric'))
              | DumpRaised e \<Rightarrow> (Inl e, rubric', fs(filepath \<mapsto> Partial)))
      | _ \<Rightarrow> (Inl AttributeError, rubric, fs))"

text \<open>
  The strings of a JSON value, keys included, and a \<open>dump\<close> that raises
  \<open>UnicodeEncodeError\<close> when one of them holds a surrogate code point (\<open>U+D800\<close> to
  \<open>U+DFFF\<close>), which UTF-8 cannot encode, and returns otherwise.
\<close>

primrec strings_of :: "json \<Rightarrow> pystr list" where
  "strings_of JNull = []"
| "strings_of (JBool b) = []"
| "strings_of (JInt i) = []"
| "strings_of (JFloat x) = []"
| "strings_of (JStr s) = [s]"
| "strings_of (JArr xs) = concat (map strings_of xs)"
| "strings_of (JObj kvs) =
     concat (map (\<lambda>kv. fst kv # snd kv) (map (map_prod id strings_of) kvs))"

definition is_surrogate :: "nat \<Rightarrow> bool" where
  "is_surrogate c \<longleftrightarrow> 55296 \<le> c \<and> c \<le> 57343"

definition utf8_dump :: json_dumper where
  "utf8_dump rubric =
     (if list_ex (list_ex is_surrogate) (strings_of (JObj rubric)) then DumpRaised UnicodeEncodeError
      else Dumped)"

text \<open>The text of \<open>Path(p)\<close> for a path without redundant separators and dots.\<close>

definition plain_path :: "pystr \<Rightarrow> pystr" where
  "plain_path p = p"

text \<open>
  A stand-in for the Unicode tables on two characters outside ASCII: the Kelvin sign
  (8490) becomes \<open>k\<close>, the capital I with dot above (304) becomes \<open>i\<close> and a combining
  dot (775); every other character is left as it is.
\<close>

definition sample_lower_table :: lower_table where
  "sample_lower_table s i =
     (if s ! i = 8490 then [107] else if s ! i = 304 then [105, 775] else [s ! i])"

section \<open>Merging rubrics (\<open>merge_rubrics\<close>)\<close>

subsection \<open>Objects and references\<close>

text \<open>
  \<open>merge_rubrics\<close> copies only the top-level dict of the first rubric and then appends
  to the lists and stores into the dict that the copy still shares with it. To show
  this, the list and dict objects held in the entries of a rubric live on a heap: an
  entry of a rubric is either a reference to such an object or an immutable value
  (\<open>None\<close>, a number, a string; a \<open>JArr\<close> or \<open>JObj\<close> here stands for a sequence or
  mapping that cannot be changed). The elements of the lists and the values of the
  dicts are JSON values: no step of \<open>merge_rubrics\<close> changes one of them. The rubric
  dicts themselves are not changed either and are plain values.
\<close>

type_synonym addr = nat

datatype obj = OList "json list" | ODict pydict

datatype entry = Val json | Ref addr

type_synonym heap = "addr \<Rightarrow> obj"

type_synonym rubric = "(pystr \<times> entry) list"

definition entry_get :: "rubric \<Rightarrow> pystr \<Rightarrow> entry option" where
  "entry_get r k = map_of r k"

subsection \<open>Equality and hashing of set members\<close>

text \<open>
  The members of a \<open>set\<close> are compared with \<open>==\<close>, under which \<open>True\<close>, \<open>1\<close> and \<open>1.0\<close>
  are equal. The float constant \<open>NaN\<close> of \<open>json.loads\<close> is a single object, which a set
  finds by identity. Lists and dicts cannot be hashed.
\<close>

fun py_number :: "json \<Rightarrow> rat option" where
  "py_number (JBool b) = Some (if b then 1 else 0)"
| "py_number (JInt i) = Some (of_int i)"
| "py_number (JFloat (Finite q)) = Some q"
| "py_number v = None"

definition py_eq :: "json \<Rightarrow> json \<Rightarrow> bool" where
  "py_eq a b =
     (case (py_number a, py_number b) of
        (Some x, Some y) \<Rightarrow> x = y
      | (None, None) \<Rightarrow> a = b
      | _ \<Rightarrow> False)"

fun py_hashable :: "json \<Rightarrow> bool" where
  "py_hashable (JArr xs) = False"
| "py_hashable (JObj kvs) = False"
| "py_hashable v = True"

text \<open>\<open>k in s\<close> for a set \<open>s\<close>, kept as the list of its members.\<close>

definition in_set :: "json \<Rightarrow> json list \<Rightarrow> bool" where
  "in_set k seen = list_ex (py_eq k) seen"

subsection \<open>Reading and changing entries\<close>

text \<open>\<open>x[k]\<close> for a string \<open>k\<close>: only a dict can be subscripted by a string.\<close>

definition get_item :: "json \<Rightarrow> pystr \<Rightarrow> py_error + json" where
  "get_item x k =
     (case x of
        JObj d \<Rightarrow> (case dict_get d k of Some v \<Rightarrow> Inr v | None \<Rightarrow> Inl KeyError)
      | _ \<Rightarrow> Inl TypeError)"

text \<open>The elements that \<open>for x in r.get(k, [])\<close> runs over.\<close>

definition iter_entry :: "heap \<Rightarrow> entry option \<Rightarrow> py_error + json list" where
  "iter_entry h e =
     (case e of
        None \<Rightarrow> Inr []
      | Some (Val v) \<Rightarrow> py_iter v
      | Some (Ref a) \<Rightarrow> (case h a of
                          OList xs \<Rightarrow> Inr xs
                        | ODict d \<Rightarrow> Inr (map (\<lambda>kv. JStr (fst kv)) d)))"

text \<open>The pairs of \<open>r.get(k, {}).items()\<close>: only a dict has \<open>items\<close>.\<close>

definition items_entry :: "heap \<Rightarrow> entry option \<Rightarrow> py_error + pydict" where
  "items_entry h e =
     (case e of
        None \<Rightarrow> Inr []
      | Some (Val (JObj d)) \<Rightarrow> Inr d
      | Some (Val v) \<Rightarrow> Inl AttributeError
      | Some (Ref a) \<Rightarrow> (case h a of ODict d \<Rightarrow> Inr d | OList xs \<Rightarrow> Inl AttributeError))"

text \<open>
  \<open>merged[field].append(x)\<close>: \<open>KeyError\<close> without the entry, \<open>AttributeError\<close> when the
  entry is not a list object.
\<close>

definition append_entry :: "heap \<Rightarrow> rubric \<Rightarrow> pystr \<Rightarrow> json \<Rightarrow> py_error + heap" where
  "append_entry h merged field x =
     (case entry_get merged field of
        None \<Rightarrow> Inl KeyError
      | Some (Val v) \<Rightarrow> Inl AttributeError
      | Some (Ref a) \<Rightarrow> (case h a of
                          OList xs \<Rightarrow> Inr (h(a := OList (xs @ [x])))
                        | ODict d \<Rightarrow> Inl AttributeError))"

subsection \<open>Merging a list entry\<close>

text \<open>
  The key of an element, as the test \<open>key not in existing\<close> needs it: computing the
  key can raise, and so does hashing a key that is a list or a dict.
\<close>

definition hashed :: "(json \<Rightarrow> py_error + json) \<Rightarrow> json \<Rightarrow> py_error + json" where
  "hashed keyf x =
     (case keyf x of
        Inl e \<Rightarrow> Inl e
      | Inr k \<Rightarrow> if py_hashable k then Inr k else Inl TypeError)"

text \<open>
  The inner loop \<open>for x in rubric.get(field, [])\<close> over the elements \<open>xs\<close>, with the
  heap and the set of keys seen so far as its state. The loop reads the list once,
  at its start. When the list it runs over is the very list it appends to (one object
  reached through two rubrics), Python's loop also visits the appended elements; each
  of them has its key in the set by then, so visiting it changes nothing.
\<close>

fun merge_items ::
  "(json \<Rightarrow> py_error + json) \<Rightarrow> rubric \<Rightarrow> pystr \<Rightarrow> json list \<Rightarrow> heap \<times> json list \<Rightarrow>
   py_error + heap \<times> json list" where
  "merge_items keyf merged field [] st = Inr st"
| "merge_items keyf merged field (x # xs) st =
     (case hashed keyf x of
        Inl e \<Rightarrow> Inl e
      | Inr k \<Rightarrow>
          if \<not> in_set k (snd st) then
            (case append_entry (fst st) merged field x of
               Inl e \<Rightarrow> Inl e
             | Inr h' \<Rightarrow> merge_items keyf merged field xs (h', snd st @ [k]))
          else merge_items keyf merged field xs st)"

text \<open>The outer loop \<open>for rubric in rubrics[1:]\<close>.\<close>

fun merge_over ::
  "(json \<Rightarrow> py_error + json) \<Rightarrow> rubric \<Rightarrow> pystr \<Rightarrow> rubric list \<Rightarrow> heap \<times> json list \<Rightarrow>
   py_error + heap \<times> json list" where
  "merge_over keyf merged field [] st = Inr st"
| "merge_over keyf merged field (rubric # rest) st =
     (case iter_entry (fst st) (entry_get rubric field) of
        Inl e \<Rightarrow> Inl e
      | Inr xs \<Rightarrow>
          (case merge_items keyf merged field xs st of
             Inl e \<Rightarrow> Inl e
           | Inr st' \<Rightarrow> merge_over keyf merged field rest st'))"

text \<open>
  One of the three blocks "merge phases", "merge key insights", "merge decision
  points": build the set of the keys of the elements that \<open>merged\<close> has, then run the
  two loops.
\<close>

definition merge_list_entry ::
  "(json \<Rightarrow> py_error + json) \<Rightarrow> pystr \<Rightarrow> rubric \<Rightarrow> rubric list \<Rightarrow> heap \<Rightarrow> py_error + heap" where
  "merge_list_entry keyf field merged rest h =
     (case iter_entry h (entry_get merged field) of
        Inl e \<Rightarrow> Inl e
      | Inr xs \<Rightarrow>
          (case map_result (hashed keyf) xs of
             Inl e \<Rightarrow> Inl e
           | Inr existing \<Rightarrow>
               (case merge_over keyf merged field rest (h, existing) of
                  Inl e \<Rightarrow> Inl e
                | Inr st \<Rightarrow> Inr (fst st))))"

subsection \<open>Merging the benchmarks\<close>

text \<open>
  \<open>merged.get('benchmarks', {}).get(key) is None\<close>: the entry must be a dict (only a
  dict has \<open>get\<close>), and the test holds for a missing key and for a key stored with
  \<open>None\<close>.
\<close>

definition benchmark_missing :: "heap \<Rightarrow> rubric \<Rightarrow> pystr \<Rightarrow> py_error + bool" where
  "benchmark_missing h merged key =
     (case items_entry h (entry_get merged (py ''benchmarks'')) of
        Inl e \<Rightarrow> Inl e
      | Inr d \<Rightarrow> Inr (dict_get d key = None \<or> dict_get d key = Some JNull))"

text \<open>
  \<open>merged['benchmarks'][key] = value\<close>: \<open>KeyError\<close> without the entry, \<open>TypeError\<close>
  when the entry is not a dict object.
\<close>

definition store_benchmark :: "heap \<Rightarrow> rubric \<Rightarrow> pystr \<Rightarrow> json \<Rightarrow> py_error + heap" where
  "store_benchmark h merged key value =
     (case entry_get merged (py ''benchmarks'') of
        None \<Rightarrow> Inl KeyError
      | Some (Val v) \<Rightarrow> Inl TypeError
      | Some (Ref a) \<Rightarrow> (case h a of
                          ODict d \<Rightarrow> Inr (h(a := ODict (dict_set d key value)))
                        | OList xs \<Rightarrow> Inl TypeError))"

text \<open>
  The inner loop over the items of one rubric's benchmarks. The items are read once, at
  the start of the loop. When they belong to the very dict the loop stores into, no
  store happens: a value that is not \<open>None\<close> is then found under its own key.
\<close>

fun merge_benchmark_items :: "rubric \<Rightarrow> pydict \<Rightarrow> heap \<Rightarrow> py_error + heap" where
  "merge_benchmark_items merged [] h = Inr h"
| "merge_benchmark_items merged (kv # items) h =
     (if snd kv \<noteq> JNull then
        (case benchmark_missing h merged (fst kv) of
           Inl e \<Rightarrow> Inl e
         | Inr missing \<Rightarrow>
             if missing then
               (case store_benchmark h merged (fst kv) (snd kv) of
                  Inl e \<Rightarrow> Inl e
                | Inr h' \<Rightarrow> merge_benchmark_items merged items h')
             else merge_benchmark_items merged items h)
      else merge_benchmark_items merged items h)"

fun merge_benchmarks_over :: "rubric \<Rightarrow> rubric list \<Rightarrow> heap \<Rightarrow> py_error + heap" where
  "merge_benchmarks_over merged [] h = Inr h"
| "merge_benchmarks_over merged (rubric # rest) h =
     (case items_entry h (entry_get rubric (py ''benchmarks'')) of
        Inl e \<Rightarrow> Inl e
      | Inr items \<Rightarrow>
          (case merge_benchmark_items merged items h of
             Inl e \<Rightarrow> Inl e
           | Inr h' \<Rightarrow> merge_benchmarks_over merged rest h'))"

subsection \<open>\<open>merge_rubrics\<close>\<close>

text \<open>
  \<open>rubrics[0].copy()\<close> makes a new top-level dict with the same entries: the same
  values and the same references. The result is the returned rubric (for the empty
  list the empty dict) and the heap after the call.
\<close>

definition name_key :: "json \<Rightarrow> py_error + json" where
  "name_key phase = get_item phase (py ''name'')"

definition trigger_key :: "json \<Rightarrow> py_error + json" where
  "trigger_key dp = get_item dp (py ''trigger'')"

definition self_key :: "json \<Rightarrow> py_error + json" where
  "self_key insight = Inr insight"

definition merge_rubrics :: "heap \<Rightarrow> rubric list \<Rightarrow> py_error + rubric \<times> heap" where
  "merge_rubrics h rubrics =
     (if rubrics = [] then Inr ([], h)
      else if length rubrics = 1 then Inr (hd rubrics, h)
      else
        (let merged = hd rubrics; rest = tl rubrics
         in case merge_list_entry name_key (py ''phases'') merged rest h of
              Inl e \<Rightarrow> Inl e
            | Inr h1 \<Rightarrow>
           (case merge_list_entry self_key (py ''key_insights'') merged rest h1 of
              Inl e \<Rightarrow> Inl e
            | Inr h2 \<Rightarrow>
           (case merge_benchmarks_over merged rest h2 of
              Inl e \<Rightarrow> Inl e
            | Inr h3 \<Rightarrow>
           (case merge_list_entry trigger_key (py ''decision_points'') merged rest h3 of
              Inl e \<Rightarrow> Inl e
            | Inr h4 \<Rightarrow> Inr (merged, h4))))))"

subsection \<open>What a merge should give\<close>

text \<open>The list and the dict that an entry of a rubric refers to, as the heap has them.\<close>

definition list_entry :: "heap \<Rightarrow> rubric \<Rightarrow> pystr \<Rightarrow> json list" where
  "list_entry h r k =
     (case entry_get r k of
        Some (Ref a) \<Rightarrow> (case h a of OList xs \<Rightarrow> xs | ODict d \<Rightarrow> [])
      | _ \<Rightarrow> [])"

definition dict_entry :: "heap \<Rightarrow> rubric \<Rightarrow> pystr \<Rightarrow> pydict" where
  "dict_entry h r k =
     (case entry_get r k of
        Some (Ref a) \<Rightarrow> (case h a of ODict d \<Rightarrow> d | OList xs \<Rightarrow> [])
      | _ \<Rightarrow> [])"

text \<open>The key of an element whose key can be computed.\<close>

definition key_of :: "(json \<Rightarrow> py_error + json) \<Rightarrow> json \<Rightarrow> json" where
  "key_of keyf x = (case keyf x of Inr k \<Rightarrow> k | Inl e \<Rightarrow> JNull)"

text \<open>
  The elements of \<open>xs\<close> that are new: those whose key equals neither a key in \<open>seen\<close>
  nor the key of an earlier new element of \<open>xs\<close>.
\<close>

fun new_by_key :: "(json \<Rightarrow> json) \<Rightarrow> json list \<Rightarrow> json list \<Rightarrow> json list" where
  "new_by_key kf seen [] = []"
| "new_by_key kf seen (x # xs) =
     (if in_set (kf x) seen then new_by_key kf seen xs
      else x # new_by_key kf (seen @ [kf x]) xs)"

text \<open>
  Deduplication by key as the specification words it: of the elements with equal keys
  only the first one stays.
\<close>

definition dedup_by_key :: "(json \<Rightarrow> json) \<Rightarrow> json list \<Rightarrow> json list" where
  "dedup_by_key kf xs = new_by_key kf [] xs"

text \<open>No two elements of the list have equal keys.\<close>

fun distinct_keys :: "(json \<Rightarrow> json) \<Rightarrow> json list \<Rightarrow> bool" where
  "distinct_keys kf [] = True"
| "distinct_keys kf (x # xs) = (\<not> in_set (kf x) (map kf xs) \<and> distinct_keys kf xs)"

text \<open>
  One benchmark item put into a benchmarks dict: it is stored when its value is not
  \<open>None\<close> and the dict has nothing but \<open>None\<close> for its key.
\<close>

definition fill_benchmark :: "pydict \<Rightarrow> pystr \<times> json \<Rightarrow> pydict" where
  "fill_benchmark b kv =
     (if snd kv \<noteq> JNull \<and> (dict_get b (fst kv) = None \<or> dict_get b (fst kv) = Some JNull)
      then dict_set b (fst kv) (snd kv) else b)"

text \<open>The first value other than \<open>None\<close> that the items hold for a key.\<close>

fun first_value :: "pystr \<Rightarrow> pydict \<Rightarrow> json option" where
  "first_value key [] = None"
| "first_value key (kv # items) =
     (if fst kv = key \<and> snd kv \<noteq> JNull then Some (snd kv) else first_value key items)"

subsection \<open>Rubrics that can be merged\<close>

text \<open>
  The entries that \<open>merge_rubrics\<close> works on, and what it needs of a rubric: the three
  list entries refer to list objects, the benchmarks entry to a dict object; every
  phase is a dict with a hashable \<open>name\<close>, every decision point a dict with a hashable
  \<open>trigger\<close>, every key insight is hashable.
\<close>

definition keyed :: "(json \<Rightarrow> py_error + json) \<Rightarrow> json \<Rightarrow> bool" where
  "keyed keyf x = (case hashed keyf x of Inr k \<Rightarrow> True | Inl e \<Rightarrow> False)"

definition refers_to_list :: "heap \<Rightarrow> rubric \<Rightarrow> pystr \<Rightarrow> bool" where
  "refers_to_list h r k =
     (case entry_get r k of
        Some (Ref a) \<Rightarrow> (case h a of OList xs \<Rightarrow> True | ODict d \<Rightarrow> False)
      | _ \<Rightarrow> False)"

definition refers_to_dict :: "heap \<Rightarrow> rubric \<Rightarrow> pystr \<Rightarrow> bool" where
  "refers_to_dict h r k =
     (case entry_get r k of
        Some (Ref a) \<Rightarrow> (case h a of ODict d \<Rightarrow> True | OList xs \<Rightarrow> False)
      | _ \<Rightarrow> False)"

definition mergeable :: "heap \<Rightarrow> rubric \<Rightarrow> bool" where
  "mergeable h r \<longleftrightarrow>
     refers_to_list h r (py ''phases'') \<and> list_all (keyed name_key) (list_entry h r (py ''phases''))
     \<and> refers_to_list h r (py ''key_insights'')
     \<and> list_all (keyed self_key) (list_entry h r (py ''key_insights''))
     \<and> refers_to_list h r (py ''decision_points'')
     \<and> list_all (keyed trigger_key) (list_entry h r (py ''decision_points''))
     \<and> refers_to_dict h r (py ''benchmarks'')"

text \<open>The addresses of the objects behind the four merged entries of a rubric.\<close>

definition merged_fields :: "pystr list" where
  "merged_fields = [py ''phases'', py ''key_insights'', py ''benchmarks'', py ''decision_points'']"

definition entry_addrs :: "rubric \<Rightarrow> addr list" where
  "entry_addrs r =
     concat (map (\<lambda>k. case entry_get r k of Some (Ref a) \<Rightarrow> [a] | _ \<Rightarrow> []) merged_fields)"

text \<open>
  The first rubric shares no object with the later ones, and its own four entries are
  four different objects: the state after \<open>json.loads\<close> has built each rubric.
\<close>

definition unshared :: "rubric \<Rightarrow> rubric list \<Rightarrow> bool" where
  "unshared r0 rest \<longleftrightarrow>
     distinct (entry_addrs r0)
     \<and> list_all (\<lambda>r. list_all (\<lambda>a. a \<notin> set (entry_addrs r0)) (entry_addrs r)) rest"

subsection \<open>Sample rubrics\<close>

text \<open>
  Two rubrics as two chunks of a transcript give them, their lists and dicts at the
  addresses 0 to 7 of the heap. Both name the phase \<open>Dark Age\<close>; the second adds the
  phase \<open>Feudal Age\<close>, an insight and a feudal age time.
\<close>

definition dark_age :: json where
  "dark_age = JObj [(py ''name'', JStr (py ''Dark Age''))]"

definition dark_age_again :: json where
  "dark_age_again = JObj [(py ''name'', JStr (py ''Dark Age'')), (py ''description'', JStr (py ''second take''))]"

definition feudal_age :: json where
  "feudal_age = JObj [(py ''name'', JStr (py ''Feudal Age''))]"

definition sample_first :: rubric where
  "sample_first =
     [(py ''title'', Val (JStr (py ''Fast Castle''))), (py ''phases'', Ref 0),
      (py ''key_insights'', Ref 1), (py ''benchmarks'', Ref 2), (py ''decision_points'', Ref 3)]"

definition sample_second :: rubric where
  "sample_second =
     [(py ''title'', Val (JStr (py ''Fast Castle, part 2''))), (py ''phases'', Ref 4),
      (py ''key_insights'', Ref 5), (py ''benchmarks'', Ref 6), (py ''decision_points'', Ref 7)]"

definition sample_heap :: heap where
  "sample_heap =
     (\<lambda>a. OList [])
       (0 := OList [dark_age],
        1 := OList [JStr (py ''scout early'')],
        2 := ODict [(py ''feudal_age'', JNull), (py ''castle_age'', JInt 900)],
        3 := OList [],
        4 := OList [dark_age_again, feudal_age],
        5 := OList [JStr (py ''scout early''), JStr (py ''wall up'')],
        6 := ODict [(py ''feudal_age'', JInt 300), (py ''castle_age'', JInt 960)],
        7 := OList [])"

text \<open>A first rubric that names one phase twice, on a heap of its own.\<close>

definition twice_heap :: heap where
  "twice_heap =
     (\<lambda>a. OList [])
       (0 := OList [dark_age, dark_age_again],
        2 := ODict [],
        4 := OList [feudal_age],
        6 := ODict [])"

text \<open>
  The elements of an entry, and the benchmark items, of a list of rubrics, one rubric
  after the other.
\<close>

definition gathered :: "heap \<Rightarrow> pystr \<Rightarrow> rubric list \<Rightarrow> json list" where
  "gathered h k rs = concat (map (\<lambda>r. list_entry h r k) rs)"

definition gathered_benchmarks :: "heap \<Rightarrow> rubric list \<Rightarrow> pydict" where
  "gathered_benchmarks h rs = concat (map (\<lambda>r. dict_entry h r (py ''benchmarks'')) rs)"

text \<open>
  What the code makes of a list entry: the elements that the first rubric has, followed
  by the new elements of the later rubrics.
\<close>

definition merged_list :: "(json \<Rightarrow> py_error + json) \<Rightarrow> json list \<Rightarrow> json list \<Rightarrow> json list" where
  "merged_list keyf cur later =
     cur @ new_by_key (key_of keyf) (map (key_of keyf) cur) later"

text \<open>
  The heap after a call that returns, and the list behind an entry of the rubric that
  the call returns.
\<close>

definition heap_after :: "heap \<Rightarrow> rubric list \<Rightarrow> heap" where
  "heap_after h rubrics = (case merge_rubrics h rubrics of Inr res \<Rightarrow> snd res | Inl e \<Rightarrow> h)"

definition merged_entry :: "heap \<Rightarrow> rubric list \<Rightarrow> pystr \<Rightarrow> json list" where
  "merged_entry h rubrics k =
     (case merge_rubrics h rubrics of Inr res \<Rightarrow> list_entry (snd res) (fst res) k | Inl e \<Rightarrow> [])"

text \<open>A second rubric with a phase that has no name, on a heap of its own.\<close>

definition nameless_heap :: heap where
  "nameless_heap =
     (\<lambda>a. OList [])
       (0 := OList [dark_age],
        2 := ODict [],
        4 := OList [JObj [(py ''description'', JStr (py ''walls''))]],
        6 := ODict [])"

section \<open>Properties of the LLM client\<close>

subsection \<open>The retry loop\<close>


lemma retry_loop_length: "retry_loop c n w = (rs, w') \<Longrightarrow> length rs \<le> n"
  by (induction n arbitrary: w rs w') (fastforce split: prod.splits if_splits)+

lemma retry_loop_nonempty: "0 < n \<Longrightarrow> retry_loop c n w = (rs, w') \<Longrightarrow> rs \<noteq> []"
  by (cases n) (auto split: prod.splits if_splits)

lemma retry_loop_failures_before_last:
  "retry_loop c n w = (rs, w') \<Longrightarrow> r \<in> set (butlast rs) \<Longrightarrow> \<not> success r"
proof (induction n arbitrary: w rs w')
  case 0
  then show ?case by simp
next
  case (Suc n)
  obtain r1 w1 where c: "c w = (r1, w1)" by (cases "c w")
  show ?case
  proof (cases "success r1")
    case True
    with Suc.prems c show ?thesis by auto
  next
    case False
    obtain rs2 w2 where l: "retry_loop c n w1 = (rs2, w2)" by (cases "retry_loop c n w1")
    with Suc.prems c False have rs: "rs = r1 # rs2" by simp
    show ?thesis
    proof (cases "rs2 = []")
      case True
      with rs Suc.prems(2) show ?thesis by simp
    next
      case ne: False
      with rs Suc.prems(2) have "r = r1 \<or> r \<in> set (butlast rs2)" by simp
      then show ?thesis using False Suc.IH [OF l] by blast
    qed
  qed
qed

lemma retry_loop_all_failed:
  "retry_loop c n w = (rs, w') \<Longrightarrow> rs \<noteq> [] \<Longrightarrow> \<not> success (last rs) \<Longrightarrow> length rs = n"
proof (induction n arbitrary: w rs w')
  case 0
  then show ?case by simp
next
  case (Suc n)
  obtain r1 w1 where c: "c w = (r1, w1)" by (cases "c w")
  show ?case
  proof (cases "success r1")
    case True
    with Suc.prems c show ?thesis by auto
  next
    case False
    obtain rs2 w2 where l: "retry_loop c n w1 = (rs2, w2)" by (cases "retry_loop c n w1")
    with Suc.prems c False have rs: "rs = r1 # rs2" by simp
    show ?thesis
    proof (cases "rs2 = []")
      case True
      with l have "n = 0" using retry_loop_nonempty [of n c w1 rs2 w2] by auto
      with rs True show ?thesis by simp
    next
      case ne: False
      with rs Suc.prems(3) have "\<not> success (last rs2)" by simp
      with Suc.IH [OF l ne] rs show ?thesis by simp
    qed
  qed
qed

text \<open>
  Claim C4, for a retry count that is not negative. A call of \<open>complete_with_retry\<close>
  invokes \<open>complete\<close> at least once and at most \<open>retries + 1\<close> times; it returns the
  result of its last invocation; every invocation before the last one failed, so a
  successful result is returned at once and is the first successful one; and when the
  returned result is a failure, all \<open>retries + 1\<close> invocations were made, so it is the
  result of the final attempt.
\<close>

theorem complete_with_retry_attempts:
  assumes "0 \<le> retries"
  shows "int (length (retry_invocations api self prompt sp retries t mt jm w)) \<le> retries + 1
    \<and> retry_invocations api self prompt sp retries t mt jm w \<noteq> []
    \<and> fst (complete_with_retry api self prompt sp retries t mt jm w)
        = Inr (last (retry_invocations api self prompt sp retries t mt jm w))
    \<and> (\<forall>r \<in> set (butlast (retry_invocations api self prompt sp retries t mt jm w)). \<not> success r)
    \<and> (\<not> success (last (retry_invocations api self prompt sp retries t mt jm w)) \<longrightarrow>
         int (length (retry_invocations api self prompt sp retries t mt jm w)) = retries + 1)"
proof -
  let ?c = "complete api self prompt sp t mt jm"
  let ?n = "nat (retries + 1)"
  obtain rs w' where l: "retry_loop ?c ?n w = (rs, w')" by (cases "retry_loop ?c ?n w")
  have inv: "retry_invocations api self prompt sp retries t mt jm w = rs"
    by (simp add: retry_invocations_def l)
  have n: "0 < ?n" "int ?n = retries + 1" using assms by auto
  have len: "int (length rs) \<le> retries + 1"
    using retry_loop_length [OF l] n(2) by linarith
  have ne: "rs \<noteq> []" using retry_loop_nonempty [OF n(1) l] .
  have ret: "fst (complete_with_retry api self prompt sp retries t mt jm w) = Inr (last rs)"
    using ne by (simp add: complete_with_retry_def retry_with_def l)
  have fl: "\<forall>r \<in> set (butlast rs). \<not> success r"
    using retry_loop_failures_before_last [OF l] by blast
  have all: "\<not> success (last rs) \<longrightarrow> int (length rs) = retries + 1"
    using retry_loop_all_failed [OF l ne] n(2) by auto
  show ?thesis
    unfolding inv using len ne ret fl all by blast
qed


theorem complete_with_retry_attempts_witness:
  "(0::int) \<le> 2
   \<and> retry_invocations failing_service (new_client accepting_ctor env_zai_only)
        ''p'' None 2 () 4000 True []
      = [Failed ''timeout'', Failed ''timeout'', Failed ''timeout'']
   \<and> fst (complete_with_retry failing_service (new_client accepting_ctor env_zai_only)
        ''p'' None 2 () 4000 True []) = Inr (Failed ''timeout'')"
proof -
  have h: "(0::int) \<le> 2" by simp
  have e: "retry_invocations failing_service (new_client accepting_ctor env_zai_only)
        ''p'' None 2 () 4000 True []
      = [Failed ''timeout'', Failed ''timeout'', Failed ''timeout'']"
    by code_simp
  from complete_with_retry_attempts [OF h, of failing_service
      "new_client accepting_ctor env_zai_only" "''p''" None "()" 4000 True "[]"]
  have "fst (complete_with_retry failing_service (new_client accepting_ctor env_zai_only)
        ''p'' None 2 () 4000 True [])
      = Inr (last (retry_invocations failing_service (new_client accepting_ctor env_zai_only)
        ''p'' None 2 () 4000 True []))"
    by blast
  with h e show ?thesis by simp
qed

text \<open>
  With a negative retry count the claim as written fails: for \<open>retries = -2\<close> no
  invocation is made, which is more than \<open>retries + 1 = -1\<close>, and the call raises
  \<open>UnboundLocalError\<close> instead of returning a result.
\<close>

theorem complete_with_retry_negative_counterexample:
  "fst (complete_with_retry failing_service (new_client accepting_ctor env_zai_only)
        ''p'' None (- 2) () 4000 True []) = Inl UnboundLocalError
   \<and> \<not> int (length (retry_invocations failing_service (new_client accepting_ctor env_zai_only)
        ''p'' None (- 2) () 4000 True [])) \<le> - 2 + 1"
proof -
  have "complete_with_retry failing_service (new_client accepting_ctor env_zai_only)
        ''p'' None (- 2) () 4000 True [] = (Inl UnboundLocalError, [])"
    by code_simp
  moreover have "retry_invocations failing_service (new_client accepting_ctor env_zai_only)
        ''p'' None (- 2) () 4000 True [] = []"
    by code_simp
  ultimately show ?thesis by simp
qed

subsection \<open>Provider resolution\<close>







section \<open>Properties of transcript chunking\<close>

subsection \<open>Slice bounds and the end of a window\<close>

lemma adjust_index_ge: "i \<le> int n \<Longrightarrow> i \<le> int (adjust_index n i)"
  by (auto simp: adjust_index_def)

lemma adjust_index_le: "0 \<le> i \<Longrightarrow> int (adjust_index n i) \<le> i"
  by (auto simp: adjust_index_def)

lemma py_rfind_bounds:
  assumes "py_rfind s sub a b \<noteq> - 1"
  shows "int (adjust_index (length s) a) \<le> py_rfind s sub a b
       \<and> py_rfind s sub a b + int (length sub) \<le> int (adjust_index (length s) b)"
proof -
  let ?lo = "adjust_index (length s) a"
  let ?hi = "adjust_index (length s) b"
  let ?found = "filter (occurs_at s sub) [?lo ..< Suc ?hi - length sub]"
  from assms have ne: "?found \<noteq> []"
    by (auto simp: py_rfind_def Let_def split: if_splits)
  then have r: "py_rfind s sub a b = int (last ?found)"
    by (simp add: py_rfind_def Let_def)
  from ne have "last ?found \<in> set ?found" by (rule last_in_set)
  then have "?lo \<le> last ?found" "last ?found < Suc ?hi - length sub" by auto
  then show ?thesis unfolding r by linarith
qed

lemma window_end_lower: "start + chunk_size - 199 \<le> window_end t chunk_size start"
proof -
  let ?e = "start + chunk_size"
  show ?thesis
  proof (cases "?e < int (length t)")
    case False
    then show ?thesis by (simp add: window_end_def Let_def)
  next
    case True
    then have lo: "?e - 200 \<le> int (adjust_index (length t) (?e - 200))"
      by (intro adjust_index_ge) simp
    show ?thesis
    proof (cases "py_rfind t [10] (?e - 200) ?e \<noteq> - 1")
      case nl: True
      from py_rfind_bounds [OF nl] lo have "?e - 200 \<le> py_rfind t [10] (?e - 200) ?e" by linarith
      with True nl show ?thesis by (simp add: window_end_def Let_def)
    next
      case nonl: False
      show ?thesis
      proof (cases "py_rfind t [46, 32] (?e - 200) ?e \<noteq> - 1")
        case se: True
        from py_rfind_bounds [OF se] lo have "?e - 200 \<le> py_rfind t [46, 32] (?e - 200) ?e"
          by linarith
        with True nonl se show ?thesis by (simp add: window_end_def Let_def)
      next
        case False
        with True nonl show ?thesis by (simp add: window_end_def Let_def)
      qed
    qed
  qed
qed

lemma window_end_upper:
  assumes "0 \<le> start + chunk_size"
  shows "window_end t chunk_size start \<le> start + chunk_size"
proof -
  let ?e = "start + chunk_size"
  have hi: "int (adjust_index (length t) ?e) \<le> ?e" using assms by (rule adjust_index_le)
  show ?thesis
  proof (cases "?e < int (length t)")
    case False
    then show ?thesis by (simp add: window_end_def Let_def)
  next
    case True
    show ?thesis
    proof (cases "py_rfind t [10] (?e - 200) ?e \<noteq> - 1")
      case nl: True
      from py_rfind_bounds [OF nl] hi have "py_rfind t [10] (?e - 200) ?e + 1 \<le> ?e" by simp
      with True nl show ?thesis by (simp add: window_end_def Let_def)
    next
      case nonl: False
      show ?thesis
      proof (cases "py_rfind t [46, 32] (?e - 200) ?e \<noteq> - 1")
        case se: True
        from py_rfind_bounds [OF se] hi have "py_rfind t [46, 32] (?e - 200) ?e + 2 \<le> ?e"
          by simp
        with True nonl se show ?thesis by (simp add: window_end_def Let_def)
      next
        case False
        with True nonl show ?thesis by (simp add: window_end_def Let_def)
      qed
    qed
  qed
qed

lemma chunk_loop_terminates:
  assumes "overlap + 200 \<le> chunk_size"
  shows "\<exists>r. chunk_loop t chunk_size overlap start chunks = Some r"
proof (induction "nat (int (length t) - start)" arbitrary: start chunks rule: less_induct)
  case less
  show ?case
  proof (cases "start < int (length t)")
    case False
    then show ?thesis by (subst chunk_loop.simps) simp
  next
    case True
    let ?e = "window_end t chunk_size start"
    from window_end_lower [of start chunk_size t] assms have "start < ?e - overlap" by linarith
    with True have "nat (int (length t) - (?e - overlap)) < nat (int (length t) - start)"
      by linarith
    from less [OF this]
    obtain r where "chunk_loop t chunk_size overlap (?e - overlap)
        (chunks @ [strip (py_slice t start ?e)]) = Some r" by blast
    with True show ?thesis by (subst chunk_loop.simps) (simp add: Let_def)
  qed
qed

text \<open>
  Claim C9. When \<open>chunk_size\<close> is at least \<open>overlap + 200\<close>, \<open>chunk_transcript\<close> returns
  for every transcript, and (for any arguments) the start of the next window lies at
  least \<open>chunk_size - overlap - 199\<close> positions after the start of the current one.
\<close>

theorem chunk_transcript_terminates:
  assumes "overlap + 200 \<le> chunk_size"
  shows "(\<exists>chunks. chunk_transcript transcript chunk_size overlap = Some chunks)
       \<and> (\<forall>start. chunk_size - overlap - 199
             \<le> (window_end transcript chunk_size start - overlap) - start)"
proof
  show "\<exists>chunks. chunk_transcript transcript chunk_size overlap = Some chunks"
    using chunk_loop_terminates [OF assms] by (simp add: chunk_transcript_def)
  show "\<forall>start. chunk_size - overlap - 199
             \<le> (window_end transcript chunk_size start - overlap) - start"
  proof
    fix start
    from window_end_lower [of start chunk_size transcript]
    show "chunk_size - overlap - 199 \<le> (window_end transcript chunk_size start - overlap) - start"
      by linarith
  qed
qed

theorem chunk_transcript_terminates_witness:
  "(500::int) + 200 \<le> 3000
   \<and> (\<exists>chunks. chunk_transcript (replicate 3001 97) 3000 500 = Some chunks)
   \<and> (500::int) + 200 \<le> 4000
   \<and> (\<exists>chunks. chunk_transcript (replicate 4001 97) 4000 500 = Some chunks)"
proof -
  have h1: "(500::int) + 200 \<le> 3000" and h2: "(500::int) + 200 \<le> 4000" by simp_all
  from chunk_transcript_terminates [OF h1, of "replicate 3001 97"]
  have c1: "\<exists>chunks. chunk_transcript (replicate 3001 97) 3000 500 = Some chunks" by blast
  from chunk_transcript_terminates [OF h2, of "replicate 4001 97"]
  have c2: "\<exists>chunks. chunk_transcript (replicate 4001 97) 4000 500 = Some chunks" by blast
  from h1 h2 c1 c2 show ?thesis by blast
qed

subsection \<open>The windows of a chunked transcript\<close>

lemma windows_chain_snoc:
  assumes "windows_chain cs ov acc"
    and "acc \<noteq> [] \<longrightarrow> s = snd (last acc) - ov"
    and "acc = [] \<longrightarrow> s = 0"
    and "0 \<le> s" "s < e" "e - s \<le> cs"
  shows "windows_chain cs ov (acc @ [(s, e)])"
proof -
  have a: "\<forall>w \<in> set (acc @ [(s, e)]). 0 \<le> fst w \<and> fst w < snd w \<and> snd w - fst w \<le> cs"
    using assms by (auto simp: windows_chain_def)
  have b: "fst ((acc @ [(s, e)]) ! Suc i) = snd ((acc @ [(s, e)]) ! i) - ov"
    if i: "Suc i < length (acc @ [(s, e)])" for i
  proof (cases "Suc i < length acc")
    case True
    with assms(1) show ?thesis by (simp add: windows_chain_def nth_append)
  next
    case False
    with i have l: "Suc i = length acc" by simp
    then have ne: "acc \<noteq> []" by auto
    from l have "i = length acc - 1" by simp
    then have "acc ! i = last acc" by (simp add: last_conv_nth ne)
    with l ne assms(2) show ?thesis by (simp add: nth_append)
  qed
  have c: "fst (hd (acc @ [(s, e)])) = 0"
    using assms(1,3) by (cases acc) (auto simp: windows_chain_def)
  from a b c show ?thesis unfolding windows_chain_def by blast
qed

lemma windows_cover_snoc:
  assumes "acc \<noteq> [] \<longrightarrow> windows_cover (snd (last acc)) acc"
    and "acc \<noteq> [] \<longrightarrow> s \<le> snd (last acc)"
    and "acc = [] \<longrightarrow> s = 0"
  shows "windows_cover e (acc @ [(s, e)])"
  unfolding windows_cover_def
proof (intro allI impI)
  fix p :: int
  assume p: "0 \<le> p \<and> p < e"
  show "\<exists>w \<in> set (acc @ [(s, e)]). in_window p w"
  proof (cases "s \<le> p")
    case True
    with p have "in_window p (s, e)" by (simp add: in_window_def)
    then show ?thesis by auto
  next
    case False
    with p assms(3) have ne: "acc \<noteq> []" by auto
    with assms(2) False have "p < snd (last acc)" by simp
    with ne assms(1) p have "\<exists>w \<in> set acc. in_window p w" by (simp add: windows_cover_def)
    then show ?thesis by auto
  qed
qed

lemma window_loop_invariant:
  assumes ov: "0 \<le> overlap" "overlap + 200 \<le> chunk_size"
    and s0: "0 \<le> start"
    and ch: "windows_chain chunk_size overlap acc"
    and cv: "acc \<noteq> [] \<longrightarrow> windows_cover (snd (last acc)) acc"
    and l1: "acc \<noteq> [] \<longrightarrow> start = snd (last acc) - overlap"
    and l2: "acc = [] \<longrightarrow> start = 0"
  shows "\<exists>ws. window_loop t chunk_size overlap start acc = Some ws
           \<and> windows_chain chunk_size overlap ws
           \<and> (acc \<noteq> [] \<or> start < int (length t)
                \<longrightarrow> ws \<noteq> [] \<and> windows_cover (int (length t)) ws)"
  using s0 ch cv l1 l2
proof (induction "nat (int (length t) - start)" arbitrary: start acc rule: less_induct)
  case less
  show ?case
  proof (cases "start < int (length t)")
    case False
    have w: "window_loop t chunk_size overlap start acc = Some acc"
      using False by (subst window_loop.simps) simp
    have "windows_cover (int (length t)) acc" if ne: "acc \<noteq> []"
    proof -
      from ne less.prems(4) ov(1) False have "int (length t) \<le> snd (last acc)" by simp
      with ne less.prems(3) show ?thesis by (auto simp: windows_cover_def)
    qed
    with w less.prems(2) False show ?thesis by auto
  next
    case True
    let ?e = "window_end t chunk_size start"
    let ?acc = "acc @ [(start, ?e)]"
    have lo: "start + chunk_size - 199 \<le> ?e" by (rule window_end_lower)
    have up: "?e \<le> start + chunk_size"
      using less.prems(1) ov by (intro window_end_upper) simp
    from lo ov have adv: "start < ?e - overlap" by linarith
    with True have m: "nat (int (length t) - (?e - overlap)) < nat (int (length t) - start)"
      by linarith
    have s': "0 \<le> ?e - overlap" using adv less.prems(1) by linarith
    have ch': "windows_chain chunk_size overlap ?acc"
      using less.prems(2,4,5) less.prems(1) adv ov(1) up
      by (intro windows_chain_snoc) auto
    have "acc \<noteq> [] \<longrightarrow> start \<le> snd (last acc)" using less.prems(4) ov(1) by simp
    then have "windows_cover ?e ?acc"
      using less.prems(3,5) by (intro windows_cover_snoc) auto
    then have cv': "?acc \<noteq> [] \<longrightarrow> windows_cover (snd (last ?acc)) ?acc" by simp
    have l1': "?acc \<noteq> [] \<longrightarrow> ?e - overlap = snd (last ?acc) - overlap" by simp
    have l2': "?acc = [] \<longrightarrow> ?e - overlap = 0" by simp
    from less.hyps [OF m s' ch' cv' l1' l2']
    obtain ws where ws: "window_loop t chunk_size overlap (?e - overlap) ?acc = Some ws"
      "windows_chain chunk_size overlap ws" "ws \<noteq> [] \<and> windows_cover (int (length t)) ws"
      by auto
    have "window_loop t chunk_size overlap start acc = Some ws"
      using True ws(1) by (subst window_loop.simps) (simp add: Let_def)
    with ws show ?thesis by blast
  qed
qed

lemma chunk_loop_windows:
  assumes "overlap + 200 \<le> chunk_size"
  shows "chunk_loop t chunk_size overlap start (map (window_slice t) acc)
       = map_option (map (window_slice t)) (window_loop t chunk_size overlap start acc)"
proof (induction "nat (int (length t) - start)" arbitrary: start acc rule: less_induct)
  case less
  show ?case
  proof (cases "start < int (length t)")
    case False
    then show ?thesis
      by (subst chunk_loop.simps, subst window_loop.simps) simp
  next
    case True
    let ?e = "window_end t chunk_size start"
    from window_end_lower [of start chunk_size t] assms have "start < ?e - overlap" by linarith
    with True have "nat (int (length t) - (?e - overlap)) < nat (int (length t) - start)"
      by linarith
    from less [OF this, of "acc @ [(start, ?e)]"] True show ?thesis
      by (subst chunk_loop.simps, subst window_loop.simps)
         (simp add: Let_def window_slice_def)
  qed
qed

text \<open>
  Claim C3, with the bounds on the parameters under which it holds. A transcript of at
  most \<open>chunk_size\<close> characters is returned unchanged as the only chunk. For a longer
  transcript, when \<open>0 \<le> overlap\<close> and \<open>overlap + 200 \<le> chunk_size\<close>, the call returns
  the stripped slices of a non-empty list of windows that is a chain (the first window
  begins at 0, every window spans at most \<open>chunk_size\<close> characters, every later window
  begins exactly \<open>overlap\<close> characters before the end of the previous one) and that
  covers every position of the transcript.
\<close>

theorem chunk_transcript_windows:
  "(int (length t1) \<le> chunk_size1 \<longrightarrow> chunk_transcript t1 chunk_size1 overlap1 = Some [t1])
   \<and> (chunk_size < int (length t) \<and> 0 \<le> overlap \<and> overlap + 200 \<le> chunk_size \<longrightarrow>
        (\<exists>ws. window_loop t chunk_size overlap 0 [] = Some ws
           \<and> chunk_transcript t chunk_size overlap = Some (map (window_slice t) ws)
           \<and> ws \<noteq> []
           \<and> windows_chain chunk_size overlap ws
           \<and> windows_cover (int (length t)) ws))"
proof (intro conjI impI)
  assume "int (length t1) \<le> chunk_size1"
  then show "chunk_transcript t1 chunk_size1 overlap1 = Some [t1]"
    by (simp add: chunk_transcript_def)
next
  assume a: "chunk_size < int (length t) \<and> 0 \<le> overlap \<and> overlap + 200 \<le> chunk_size"
  then have pos: "(0::int) < int (length t)" by linarith
  have "windows_chain chunk_size overlap []" by (simp add: windows_chain_def)
  with a window_loop_invariant [of overlap chunk_size 0 "[]" t] pos
  obtain ws where ws: "window_loop t chunk_size overlap 0 [] = Some ws"
    "windows_chain chunk_size overlap ws" "ws \<noteq> []" "windows_cover (int (length t)) ws"
    by auto
  from a chunk_loop_windows [of overlap chunk_size t 0 "[]"] ws(1)
  have "chunk_transcript t chunk_size overlap = Some (map (window_slice t) ws)"
    by (simp add: chunk_transcript_def)
  with ws show "\<exists>ws. window_loop t chunk_size overlap 0 [] = Some ws
           \<and> chunk_transcript t chunk_size overlap = Some (map (window_slice t) ws)
           \<and> ws \<noteq> []
           \<and> windows_chain chunk_size overlap ws
           \<and> windows_cover (int (length t)) ws" by blast
qed

theorem chunk_transcript_windows_witness:
  "int (length (py ''gg wp'')) \<le> 3000
   \<and> chunk_transcript (py ''gg wp'') 3000 500 = Some [py ''gg wp'']
   \<and> 3000 < int (length (replicate 3001 (97::nat))) \<and> (0::int) \<le> 500
   \<and> (500::int) + 200 \<le> 3000
   \<and> (\<exists>ws. chunk_transcript (replicate 3001 97) 3000 500
              = Some (map (window_slice (replicate 3001 97)) ws)
           \<and> ws \<noteq> []
           \<and> windows_chain 3000 500 ws
           \<and> windows_cover (int (length (replicate 3001 (97::nat)))) ws)"
proof -
  have h1: "int (length (py ''gg wp'')) \<le> 3000" by (simp add: py_def)
  have h2: "3000 < int (length (replicate 3001 (97::nat))) \<and> (0::int) \<le> 500
      \<and> (500::int) + 200 \<le> 3000" by simp
  note r = chunk_transcript_windows [of "py ''gg wp''" 3000 500 3000 "replicate 3001 97" 500]
  from r h1 have c1: "chunk_transcript (py ''gg wp'') 3000 500 = Some [py ''gg wp'']" by blast
  from r h2 have c2: "\<exists>ws. chunk_transcript (replicate 3001 97) 3000 500
              = Some (map (window_slice (replicate 3001 97)) ws)
           \<and> ws \<noteq> []
           \<and> windows_chain 3000 500 ws
           \<and> windows_cover (int (length (replicate 3001 (97::nat)))) ws" by blast
  from h1 h2 c1 c2 show ?thesis by blast
qed

text \<open>
  Without the bounds the claim fails. With \<open>chunk_size = 1\<close> and \<open>overlap = 1\<close> the
  transcript \<open>ab\<close> is longer than \<open>chunk_size\<close>, the first window is \<open>(0, 1)\<close> and the
  next window starts at \<open>1 - 1 = 0\<close> again: the loop never ends and nothing is returned.
\<close>

lemma window_end_ab: "window_end (py ''ab'') 1 0 = 1"
  by (simp add: window_end_def py_def py_rfind_def adjust_index_def Let_def occurs_at_def)

lemma chunk_loop_ab_stuck:
  assumes "chunk_loop t cs ov start chunks = Some r"
  shows "\<not> (t = py ''ab'' \<and> cs = 1 \<and> ov = 1 \<and> start = 0)"
proof (rule chunk_loop.raw_induct
    [where P = "\<lambda>t cs ov start chunks r. \<not> (t = py ''ab'' \<and> cs = 1 \<and> ov = 1 \<and> start = 0)",
     OF _ assms])
  fix f :: "pystr \<Rightarrow> int \<Rightarrow> int \<Rightarrow> int \<Rightarrow> pystr list \<Rightarrow> pystr list option"
  fix t cs ov start chunks r
  assume IH: "\<And>t cs ov start chunks r. f t cs ov start chunks = Some r \<Longrightarrow>
      \<not> (t = py ''ab'' \<and> cs = 1 \<and> ov = 1 \<and> start = 0)"
  assume step: "(if start < int (length t) then
        (let end = window_end t cs start
         in f t cs ov (end - ov) (chunks @ [strip (py_slice t start end)]))
      else Some chunks) = Some r"
  show "\<not> (t = py ''ab'' \<and> cs = 1 \<and> ov = 1 \<and> start = 0)"
  proof
    assume a: "t = py ''ab'' \<and> cs = 1 \<and> ov = 1 \<and> start = 0"
    then have "start < int (length t)" by (simp add: py_def)
    with step a
    have "f (py ''ab'') 1 1 0 (chunks @ [strip (py_slice (py ''ab'') 0 1)]) = Some r"
      by (simp add: Let_def window_end_ab)
    from IH [OF this] show False by simp
  qed
qed

theorem chunk_transcript_diverges_counterexample:
  "\<not> int (length (py ''ab'')) \<le> 1 \<and> chunk_transcript (py ''ab'') 1 1 = None"
proof (cases "chunk_loop (py ''ab'') 1 1 0 []")
  case None
  then show ?thesis by (simp add: chunk_transcript_def py_def)
next
  case (Some r)
  from chunk_loop_ab_stuck [OF this] show ?thesis by simp
qed

section \<open>Properties of rubric validation\<close>

subsection \<open>Dicts\<close>

lemma py_eq_iff [simp]: "py a = py b \<longleftrightarrow> a = b"
proof -
  have "inj (of_char :: char \<Rightarrow> nat)"
    by (rule inj_on_inverseI [where g = char_of]) simp
  then show ?thesis by (simp add: py_def inj_map_eq_map)
qed

lemma py_Nil_iff [simp]: "py a = [] \<longleftrightarrow> a = []"
  by (simp add: py_def)

lemma dict_get_set [simp]: "dict_get (dict_set d k v) k' = (if k' = k then Some v else dict_get d k')"
  by (simp add: dict_get_def dict_set_def update_conv')

lemma dict_has_set [simp]: "dict_has (dict_set d k v) k' \<longleftrightarrow> k' = k \<or> dict_has d k'"
  by (simp add: dict_has_def)

lemma dict_get_setdefault:
  "dict_get (setdefault d k v) k' = (if k' = k \<and> \<not> dict_has d k then Some v else dict_get d k')"
  by (auto simp: setdefault_def)

lemma dict_has_setdefault [simp]: "dict_has (setdefault d k v) k' \<longleftrightarrow> k' = k \<or> dict_has d k'"
  by (auto simp: dict_has_def dict_get_setdefault)

lemma setdefault_present [simp]: "dict_has d k \<Longrightarrow> setdefault d k v = d"
  by (simp add: setdefault_def)

lemma dict_get_fill_required:
  "dict_get (fill_required d f) k =
     (if k = f \<and> (\<not> dict_has d f \<or> \<not> truthy (the (dict_get d f)))
      then Some (JStr (py ''unknown'')) else dict_get d k)"
  by (auto simp: fill_required_def)

lemma truthy_unknown [simp]: "truthy (JStr (py ''unknown''))"
  by simp

lemma dict_get_fill_all:
  "distinct fs \<Longrightarrow> dict_get (foldl fill_required d fs) k =
     (if k \<in> set fs \<and> (\<not> dict_has d k \<or> \<not> truthy (the (dict_get d k)))
      then Some (JStr (py ''unknown'')) else dict_get d k)"
proof (induction fs arbitrary: d)
  case Nil
  then show ?case by simp
next
  case (Cons f fs)
  then show ?case
    by (auto simp: dict_get_fill_required dict_has_def)
qed

subsection \<open>map_result\<close>

lemma map_result_all2:
  "map_result f xs = Inr ys \<Longrightarrow> list_all2 (\<lambda>x y. f x = Inr y) xs ys"
  by (induction xs arbitrary: ys) (auto split: sum.splits)

lemma map_result_fixed:
  "(\<And>x. x \<in> set xs \<Longrightarrow> f x = Inr x) \<Longrightarrow> map_result f xs = Inr xs"
  by (induction xs) auto

lemma map_result_total:
  "(\<And>x. x \<in> set xs \<Longrightarrow> \<exists>y. f x = Inr y) \<Longrightarrow> \<exists>ys. map_result f xs = Inr ys"
proof (induction xs)
  case Nil
  then show ?case by simp
next
  case (Cons x xs)
  then obtain y where "f x = Inr y" by auto
  moreover from Cons obtain ys where "map_result f xs = Inr ys" by auto
  ultimately show ?case by simp
qed

lemma map_result_errors:
  "map_result f xs = Inl e \<Longrightarrow> \<exists>x \<in> set xs. f x = Inl e"
  by (induction xs) (auto split: sum.splits)

subsection \<open>Loops that change the elements in place\<close>

lemma for_each_in_place_elements:
  assumes "for_each_in_place f v = Inr v'"
    and str: "\<And>s. \<exists>e. f (JStr s) = Inl e"
  shows "list_all2 (\<lambda>x y. f x = Inr y) (elements v) (elements v')"
proof (cases v)
  case (JArr xs)
  with assms(1) obtain ys where "map_result f xs = Inr ys" "v' = JArr ys"
    by (auto simp: for_each_in_place_def split: sum.splits)
  with JArr show ?thesis by (simp add: elements_def map_result_all2)
next
  case (JObj kvs)
  with assms(1) obtain ys
    where m: "map_result f (map (\<lambda>kv. JStr (fst kv)) kvs) = Inr ys" and v': "v' = v"
    by (auto simp: for_each_in_place_def split: sum.splits)
  have "kvs = []"
  proof (cases kvs)
    case (Cons kv rest)
    with m str [of "fst kv"] show ?thesis by (auto split: sum.splits)
  qed simp
  with JObj v' show ?thesis by (simp add: elements_def)
next
  case (JStr s)
  with assms(1) obtain ys
    where m: "map_result f (map (\<lambda>c. JStr [c]) s) = Inr ys" and v': "v' = v"
    by (auto simp: for_each_in_place_def split: sum.splits)
  have "s = []"
  proof (cases s)
    case (Cons c rest)
    with m str [of "[c]"] show ?thesis by (auto split: sum.splits)
  qed simp
  with JStr v' show ?thesis by (simp add: elements_def)
qed (use assms(1) in \<open>auto simp: for_each_in_place_def\<close>)

lemma for_each_in_place_again:
  assumes "for_each_in_place f v = Inr v'"
    and idem: "\<And>x y. f x = Inr y \<Longrightarrow> f y = Inr y"
  shows "for_each_in_place f v' = Inr v'"
proof (cases v)
  case (JArr xs)
  with assms(1) obtain ys where ys: "map_result f xs = Inr ys" "v' = JArr ys"
    by (auto simp: for_each_in_place_def split: sum.splits)
  have "f y = Inr y" if "y \<in> set ys" for y
  proof -
    from map_result_all2 [OF ys(1)] that obtain x where "f x = Inr y"
      by (auto simp: list_all2_conv_all_nth in_set_conv_nth)
    then show ?thesis by (rule idem)
  qed
  then have "map_result f ys = Inr ys" by (rule map_result_fixed)
  with ys(2) show ?thesis by (simp add: for_each_in_place_def)
next
  case (JObj kvs)
  with assms(1) show ?thesis by (auto simp: for_each_in_place_def split: sum.splits)
next
  case (JStr s)
  with assms(1) show ?thesis by (auto simp: for_each_in_place_def split: sum.splits)
qed (use assms(1) in \<open>auto simp: for_each_in_place_def\<close>)

lemma for_each_at_get:
  assumes "for_each_at f k d = Inr d'"
  shows "dict_get d' k' = (if k' = k then
            (case dict_get d k of None \<Rightarrow> None
             | Some v \<Rightarrow> (case for_each_in_place f v of Inr v' \<Rightarrow> Some v' | Inl e \<Rightarrow> None))
          else dict_get d k')"
  using assms by (auto simp: for_each_at_def split: option.splits sum.splits)

lemma for_each_at_has:
  "for_each_at f k d = Inr d' \<Longrightarrow> dict_has d' k' \<longleftrightarrow> dict_has d k'"
  by (auto simp: for_each_at_def dict_has_def split: option.splits sum.splits if_splits)

lemma dict_set_same: "dict_get d k = Some v \<Longrightarrow> dict_set d k v = d"
  by (simp add: dict_get_def dict_set_def update_triv)

lemma for_each_at_again:
  assumes "for_each_at f k d = Inr d'"
    and idem: "\<And>x y. f x = Inr y \<Longrightarrow> f y = Inr y"
  shows "for_each_at f k d' = Inr d'"
proof (cases "dict_get d k")
  case None
  with assms(1) show ?thesis by (simp add: for_each_at_def)
next
  case (Some v)
  with assms(1) obtain v' where v': "for_each_in_place f v = Inr v'" "d' = dict_set d k v'"
    by (auto simp: for_each_at_def split: sum.splits)
  from for_each_in_place_again [OF v'(1) idem] have "for_each_in_place f v' = Inr v'" .
  moreover have "dict_get d' k = Some v'" using v'(2) by simp
  ultimately show ?thesis by (simp add: for_each_at_def dict_set_same)
qed

subsection \<open>Actions and phases\<close>

lemma validate_action_str: "\<exists>e. validate_action (JStr s) = Inl e"
  by (simp add: validate_action_def)

lemma validate_phase_str: "\<exists>e. validate_phase (JStr s) = Inl e"
  by (simp add: validate_phase_def)

lemma validate_action_ok: "validate_action a = Inr a' \<Longrightarrow> action_ok a'"
  by (auto simp: validate_action_def action_ok_def split: json.splits)

lemma validate_action_again: "validate_action a = Inr a' \<Longrightarrow> validate_action a' = Inr a'"
  by (auto simp: validate_action_def split: json.splits)

lemma list_all2_outputs:
  "list_all2 (\<lambda>x y. f x = Inr y) xs ys \<Longrightarrow> (\<And>x y. f x = Inr y \<Longrightarrow> P y) \<Longrightarrow> list_all P ys"
  by (induction xs ys rule: list_all2_induct) auto

lemma validate_phase_ok:
  assumes "validate_phase p = Inr p'"
  shows "phase_ok p'"
proof -
  from assms obtain d where p: "p = JObj d"
    by (auto simp: validate_phase_def split: json.splits)
  let ?d3 = "setdefault (setdefault (setdefault d (py ''key_actions'') (JArr []))
      (py ''success_criteria'') (JArr [])) (py ''common_mistakes'') (JArr [])"
  from assms p obtain d4
    where d4: "for_each_at validate_action (py ''key_actions'') ?d3 = Inr d4" "p' = JObj d4"
    by (auto simp: validate_phase_def Let_def split: sum.splits)
  have has: "dict_has d4 (py ''success_criteria'')" "dict_has d4 (py ''common_mistakes'')"
    by (simp_all add: for_each_at_has [OF d4(1)])
  have "dict_has ?d3 (py ''key_actions'')" by simp
  then obtain v where v: "dict_get ?d3 (py ''key_actions'') = Some v"
    by (auto simp: dict_has_def)
  with d4(1) obtain v' where v': "for_each_in_place validate_action v = Inr v'"
    "d4 = dict_set ?d3 (py ''key_actions'') v'"
    by (auto simp: for_each_at_def split: sum.splits)
  from for_each_in_place_elements [OF v'(1) validate_action_str]
  have "list_all action_ok (elements v')"
    by (rule list_all2_outputs) (rule validate_action_ok)
  moreover have "dict_get d4 (py ''key_actions'') = Some v'" using v'(2) by simp
  ultimately show ?thesis using has d4(2) by (simp add: phase_ok_def)
qed

lemma validate_phase_again:
  assumes "validate_phase p = Inr p'"
  shows "validate_phase p' = Inr p'"
proof -
  from assms obtain d where p: "p = JObj d"
    by (auto simp: validate_phase_def split: json.splits)
  let ?d3 = "setdefault (setdefault (setdefault d (py ''key_actions'') (JArr []))
      (py ''success_criteria'') (JArr [])) (py ''common_mistakes'') (JArr [])"
  from assms p obtain d4
    where d4: "for_each_at validate_action (py ''key_actions'') ?d3 = Inr d4" "p' = JObj d4"
    by (auto simp: validate_phase_def Let_def split: sum.splits)
  have has: "dict_has d4 (py ''key_actions'')" "dict_has d4 (py ''success_criteria'')"
    "dict_has d4 (py ''common_mistakes'')"
    by (simp_all add: for_each_at_has [OF d4(1)])
  from for_each_at_again [OF d4(1) validate_action_again]
  have "for_each_at validate_action (py ''key_actions'') d4 = Inr d4" .
  with has d4(2) show ?thesis by (simp add: validate_phase_def)
qed

subsection \<open>The stages of \<open>_validate_rubric\<close>\<close>

lemma distinct_required: "distinct required_fields"
  by (simp add: required_fields_def)

lemma dict_get_setdefault_has:
  "dict_has d k \<Longrightarrow> dict_get (setdefault d k' v) k = dict_get d k"
  by (auto simp: dict_get_setdefault)

lemma dict_get_ensure_arrays:
  "dict_has d k \<Longrightarrow> dict_get (ensure_arrays d) k = dict_get d k"
  by (simp add: ensure_arrays_def Let_def dict_get_setdefault_has)

lemma dict_has_ensure_arrays:
  "dict_has (ensure_arrays d) k \<longleftrightarrow> k \<in> set array_fields \<or> dict_has d k"
  by (auto simp: ensure_arrays_def Let_def array_fields_def)

lemma ensure_arrays_again:
  "list_all (dict_has d) array_fields \<Longrightarrow> ensure_arrays d = d"
  by (simp add: ensure_arrays_def Let_def array_fields_def)

lemma foldl_setdefault_get:
  "dict_get (foldl (\<lambda>b key. setdefault b key v) b ks) k =
     (if k \<in> set ks \<and> \<not> dict_has b k then Some v else dict_get b k)"
  by (induction ks arbitrary: b) (auto simp: dict_get_setdefault dict_has_def)

lemma foldl_setdefault_again:
  "list_all (dict_has b) ks \<Longrightarrow> foldl (\<lambda>b key. setdefault b key v) b ks = b"
  by (induction ks arbitrary: b) auto

lemma fill_benchmarks_get:
  assumes "fill_benchmarks d = Inr d'"
  shows "\<exists>b. (dict_get d (py ''benchmarks'') = Some (JObj b)
               \<or> dict_get d (py ''benchmarks'') = None \<and> b = [])
           \<and> dict_get d' = (dict_get d)(py ''benchmarks'' \<mapsto>
                 JObj (foldl (\<lambda>b key. setdefault b key JNull) b benchmark_keys))"
proof (cases "dict_get d (py ''benchmarks'')")
  case None
  then have "\<not> dict_has d (py ''benchmarks'')" by (simp add: dict_has_def)
  with assms None show ?thesis
    by (auto simp: fill_benchmarks_def Let_def setdefault_def fun_eq_iff)
next
  case (Some v)
  then have "dict_has d (py ''benchmarks'')" by (simp add: dict_has_def)
  with assms Some show ?thesis
    by (auto simp: fill_benchmarks_def Let_def fun_eq_iff split: json.splits)
qed

lemma fill_benchmarks_again:
  assumes "dict_get d (py ''benchmarks'') = Some (JObj b)" "list_all (dict_has b) benchmark_keys"
  shows "fill_benchmarks d = Inr d"
proof -
  from assms(1) have "dict_has d (py ''benchmarks'')" by (simp add: dict_has_def)
  with assms show ?thesis
    by (simp add: fill_benchmarks_def Let_def foldl_setdefault_again dict_set_same)
qed

lemma fill_required_again:
  "list_all (field_filled d) fs \<Longrightarrow> foldl fill_required d fs = d"
proof (induction fs)
  case Nil
  then show ?case by simp
next
  case (Cons f fs)
  then have "fill_required d f = d"
    by (auto simp: fill_required_def field_filled_def dict_has_def split: option.splits)
  with Cons show ?case by simp
qed

lemma validate_rubric_stages:
  assumes "validate_rubric now v = Inr r"
  obtains d d3 d4 where "v = JObj d"
    and "for_each_at validate_phase (py ''phases'')
           (ensure_arrays (foldl fill_required d required_fields)) = Inr d3"
    and "fill_benchmarks d3 = Inr d4"
    and "r = dict_set d4 (py ''_meta'') (meta_entry now)"
  using assms by (auto simp: validate_rubric_def Let_def split: json.splits sum.splits)

lemma validate_rubric_never_ValueError: "validate_rubric now v \<noteq> Inl ValueError"
proof
  assume a: "validate_rubric now v = Inl ValueError"
  then obtain d where v: "v = JObj d" by (auto simp: validate_rubric_def split: json.splits)
  let ?d2 = "ensure_arrays (foldl fill_required d required_fields)"
  have act: "validate_action x \<noteq> Inl ValueError" for x
    by (auto simp: validate_action_def split: json.splits)
  have it: "py_iter x \<noteq> Inl ValueError" for x by (cases x) auto
  have fe: "for_each_in_place f x \<noteq> Inl ValueError" if "\<And>y. f y \<noteq> Inl ValueError" for f x
  proof
    assume e: "for_each_in_place f x = Inl ValueError"
    then have "(\<exists>xs. map_result f xs = Inl ValueError) \<or> py_iter x = Inl ValueError"
      by (auto simp: for_each_in_place_def split: json.splits sum.splits)
    with it obtain xs where "map_result f xs = Inl ValueError" by auto
    from map_result_errors [OF this] that show False by auto
  qed
  have fa: "for_each_at f k x \<noteq> Inl ValueError" if "\<And>y. f y \<noteq> Inl ValueError" for f k x
    using fe [OF that] by (auto simp: for_each_at_def split: option.splits sum.splits)
  have ph: "validate_phase x \<noteq> Inl ValueError" for x
    using fa [of validate_action, OF act]
    by (auto simp: validate_phase_def Let_def split: json.splits sum.splits)
  have fb: "fill_benchmarks x \<noteq> Inl ValueError" for x
    by (auto simp: fill_benchmarks_def Let_def split: option.splits json.splits)
  from a v fa [of validate_phase, OF ph] fb show False
    by (auto simp: validate_rubric_def Let_def split: sum.splits)
qed

lemma fill_required_other:
  "k \<notin> set required_fields \<Longrightarrow>
   dict_get (foldl fill_required d required_fields) k = dict_get d k"
  by (simp add: dict_get_fill_all [OF distinct_required])

lemma validate_rubric_required:
  assumes "validate_rubric now (JObj d) = Inr r" and "f \<in> set required_fields"
  shows "dict_get r f = (if dict_has d f \<and> truthy (the (dict_get d f)) then dict_get d f
                         else Some (JStr (py ''unknown'')))"
proof -
  from assms(1) obtain d3 d4 where
    d3: "for_each_at validate_phase (py ''phases'')
           (ensure_arrays (foldl fill_required d required_fields)) = Inr d3"
    and d4: "fill_benchmarks d3 = Inr d4"
    and r: "r = dict_set d4 (py ''_meta'') (meta_entry now)"
    by (auto elim: validate_rubric_stages)
  let ?d1 = "foldl fill_required d required_fields"
  from assms(2) have ne: "f \<noteq> py ''_meta''" "f \<noteq> py ''benchmarks''" "f \<noteq> py ''phases''"
    by (auto simp: required_fields_def)
  have g1: "dict_get ?d1 f = (if dict_has d f \<and> truthy (the (dict_get d f)) then dict_get d f
                         else Some (JStr (py ''unknown'')))"
    using assms(2) by (auto simp: dict_get_fill_all [OF distinct_required])
  then have "dict_has ?d1 f" by (auto simp: dict_has_def)
  then have g2: "dict_get (ensure_arrays ?d1) f = dict_get ?d1 f"
    by (rule dict_get_ensure_arrays)
  have g3: "dict_get d3 f = dict_get (ensure_arrays ?d1) f"
    using for_each_at_get [OF d3, of f] ne by simp
  from fill_benchmarks_get [OF d4] ne have g4: "dict_get d4 f = dict_get d3 f" by auto
  from r ne have "dict_get r f = dict_get d4 f" by simp
  with g1 g2 g3 g4 show ?thesis by simp
qed

lemma validate_rubric_arrays:
  assumes "validate_rubric now v = Inr r" and "k \<in> set array_fields"
  shows "dict_has r k"
proof -
  from assms(1) obtain d d3 d4 where
    d3: "for_each_at validate_phase (py ''phases'')
           (ensure_arrays (foldl fill_required d required_fields)) = Inr d3"
    and d4: "fill_benchmarks d3 = Inr d4"
    and r: "r = dict_set d4 (py ''_meta'') (meta_entry now)"
    by (auto elim: validate_rubric_stages)
  from assms(2) have "dict_has (ensure_arrays (foldl fill_required d required_fields)) k"
    by (simp add: dict_has_ensure_arrays)
  then have "dict_has d3 k" by (simp add: for_each_at_has [OF d3])
  with fill_benchmarks_get [OF d4] have "dict_has d4 k" by (auto simp: dict_has_def)
  with r show ?thesis by simp
qed

lemma validate_rubric_benchmarks:
  assumes "validate_rubric now (JObj d) = Inr r"
  shows "\<exists>b0. (dict_get d (py ''benchmarks'') = Some (JObj b0)
               \<or> dict_get d (py ''benchmarks'') = None \<and> b0 = [])
           \<and> dict_get r (py ''benchmarks'')
              = Some (JObj (foldl (\<lambda>b key. setdefault b key JNull) b0 benchmark_keys))"
proof -
  from assms(1) obtain d3 d4 where
    d3: "for_each_at validate_phase (py ''phases'')
           (ensure_arrays (foldl fill_required d required_fields)) = Inr d3"
    and d4: "fill_benchmarks d3 = Inr d4"
    and r: "r = dict_set d4 (py ''_meta'') (meta_entry now)"
    by (auto elim: validate_rubric_stages)
  let ?d1 = "foldl fill_required d required_fields"
  have g1: "dict_get ?d1 (py ''benchmarks'') = dict_get d (py ''benchmarks'')"
    by (rule fill_required_other) (simp add: required_fields_def)
  have g2: "dict_get (ensure_arrays ?d1) (py ''benchmarks'') = dict_get ?d1 (py ''benchmarks'')"
    by (simp add: ensure_arrays_def Let_def dict_get_setdefault)
  have g3: "dict_get d3 (py ''benchmarks'') = dict_get (ensure_arrays ?d1) (py ''benchmarks'')"
    using for_each_at_get [OF d3, of "py ''benchmarks''"] by simp
  from fill_benchmarks_get [OF d4] obtain b0 where
    b0: "dict_get d3 (py ''benchmarks'') = Some (JObj b0)
         \<or> dict_get d3 (py ''benchmarks'') = None \<and> b0 = []"
    "dict_get d4 (py ''benchmarks'')
       = Some (JObj (foldl (\<lambda>b key. setdefault b key JNull) b0 benchmark_keys))"
    by auto
  from r have "dict_get r (py ''benchmarks'') = dict_get d4 (py ''benchmarks'')" by simp
  with b0 g1 g2 g3 show ?thesis by auto
qed

lemma validate_rubric_phases:
  assumes "validate_rubric now (JObj d) = Inr r"
  shows "\<exists>v v'. (dict_get d (py ''phases'') = Some v
                  \<or> dict_get d (py ''phases'') = None \<and> v = JArr [])
           \<and> dict_get r (py ''phases'') = Some v'
           \<and> for_each_in_place validate_phase v = Inr v'"
proof -
  from assms(1) obtain d3 d4 where
    d3: "for_each_at validate_phase (py ''phases'')
           (ensure_arrays (foldl fill_required d required_fields)) = Inr d3"
    and d4: "fill_benchmarks d3 = Inr d4"
    and r: "r = dict_set d4 (py ''_meta'') (meta_entry now)"
    by (auto elim: validate_rubric_stages)
  let ?d1 = "foldl fill_required d required_fields"
  let ?d2 = "ensure_arrays ?d1"
  have g1: "dict_get ?d1 (py ''phases'') = dict_get d (py ''phases'')"
    by (rule fill_required_other) (simp add: required_fields_def)
  have g2: "dict_get ?d2 (py ''phases'')
      = (if dict_has ?d1 (py ''phases'') then dict_get ?d1 (py ''phases'') else Some (JArr []))"
    by (simp add: ensure_arrays_def Let_def dict_get_setdefault)
  then obtain v where v: "dict_get ?d2 (py ''phases'') = Some v"
    "dict_get d (py ''phases'') = Some v \<or> dict_get d (py ''phases'') = None \<and> v = JArr []"
    using g1 by (auto simp: dict_has_def split: if_splits)
  with d3 obtain v' where v': "for_each_in_place validate_phase v = Inr v'"
    "d3 = dict_set ?d2 (py ''phases'') v'"
    by (auto simp: for_each_at_def split: sum.splits)
  then have "dict_get d3 (py ''phases'') = Some v'" by simp
  with fill_benchmarks_get [OF d4] have "dict_get d4 (py ''phases'') = Some v'" by auto
  with r have "dict_get r (py ''phases'') = Some v'" by simp
  with v(2) v'(1) show ?thesis by blast
qed

lemma validate_rubric_shape:
  assumes "validate_rubric now v = Inr r"
  shows "rubric_shape r"
proof -
  from assms obtain d where v: "v = JObj d" by (auto elim: validate_rubric_stages)
  note a = assms [unfolded v]
  have req: "list_all (field_filled r) required_fields"
    unfolding list_all_iff
  proof
    fix f assume "f \<in> set required_fields"
    from validate_rubric_required [OF a this] show "field_filled r f"
      by (auto simp: field_filled_def dict_has_def split: if_splits)
  qed
  have arr: "list_all (dict_has r) array_fields"
    unfolding list_all_iff using validate_rubric_arrays [OF assms] by blast
  from validate_rubric_benchmarks [OF a] obtain b0 where
    "dict_get r (py ''benchmarks'')
       = Some (JObj (foldl (\<lambda>b key. setdefault b key JNull) b0 benchmark_keys))" by blast
  moreover have "list_all (dict_has (foldl (\<lambda>b key. setdefault b key JNull) b0 benchmark_keys))
      benchmark_keys"
    by (auto simp: list_all_iff dict_has_def foldl_setdefault_get)
  ultimately have bm: "case dict_get r (py ''benchmarks'') of
          Some (JObj b) \<Rightarrow> list_all (dict_has b) benchmark_keys
        | _ \<Rightarrow> False" by simp
  from validate_rubric_phases [OF a] obtain pv pv' where
    p: "dict_get r (py ''phases'') = Some pv'" "for_each_in_place validate_phase pv = Inr pv'"
    by blast
  from for_each_in_place_elements [OF p(2) validate_phase_str]
  have "list_all phase_ok (elements pv')"
    by (rule list_all2_outputs) (rule validate_phase_ok)
  with p(1) have ph: "case dict_get r (py ''phases'') of
          Some phases \<Rightarrow> list_all phase_ok (elements phases)
        | None \<Rightarrow> False" by simp
  from req arr bm ph show ?thesis unfolding rubric_shape_def by blast
qed

lemma for_each_in_place_returns_aux:
  assumes str: "\<And>s. \<exists>e. f (JStr s) = Inl e"
  shows "(\<exists>v'. for_each_in_place f v = Inr v') \<longleftrightarrow> accepts_each (\<lambda>x. \<exists>y. f x = Inr y) v"
proof (cases v)
  case (JArr xs)
  have "(\<exists>ys. map_result f xs = Inr ys) \<longleftrightarrow> list_all (\<lambda>x. \<exists>y. f x = Inr y) xs"
  proof
    assume "\<exists>ys. map_result f xs = Inr ys"
    then obtain ys where "map_result f xs = Inr ys" ..
    from map_result_all2 [OF this] show "list_all (\<lambda>x. \<exists>y. f x = Inr y) xs"
      by (induction xs ys rule: list_all2_induct) auto
  next
    assume "list_all (\<lambda>x. \<exists>y. f x = Inr y) xs"
    then show "\<exists>ys. map_result f xs = Inr ys"
      by (intro map_result_total) (simp add: list_all_iff)
  qed
  with JArr show ?thesis
    by (auto simp: for_each_in_place_def accepts_each_def split: sum.splits)
next
  case (JObj kvs)
  show ?thesis
  proof (cases kvs)
    case Nil
    with JObj show ?thesis by (simp add: for_each_in_place_def accepts_each_def)
  next
    case (Cons kv rest)
    with JObj str [of "fst kv"] show ?thesis
      by (auto simp: for_each_in_place_def accepts_each_def split: sum.splits)
  qed
next
  case (JStr s)
  show ?thesis
  proof (cases s)
    case Nil
    with JStr show ?thesis by (simp add: for_each_in_place_def accepts_each_def)
  next
    case (Cons c rest)
    with JStr str [of "[c]"] show ?thesis
      by (auto simp: for_each_in_place_def accepts_each_def split: sum.splits)
  qed
qed (auto simp: for_each_in_place_def accepts_each_def)

lemma for_each_in_place_returns_iff:
  assumes str: "\<And>s. \<exists>e. f (JStr s) = Inl e"
    and acc: "\<And>x. (\<exists>y. f x = Inr y) \<longleftrightarrow> P x"
  shows "(\<exists>v'. for_each_in_place f v = Inr v') \<longleftrightarrow> accepts_each P v"
proof -
  have P: "P = (\<lambda>x. \<exists>y. f x = Inr y)" by (simp add: fun_eq_iff acc)
  show ?thesis unfolding P using str by (rule for_each_in_place_returns_aux)
qed

lemma validate_action_returns_iff: "(\<exists>y. validate_action a = Inr y) \<longleftrightarrow> action_accepted a"
  by (auto simp: validate_action_def action_accepted_def split: json.splits)

lemma for_each_at_returns_iff:
  assumes str: "\<And>s. \<exists>e. f (JStr s) = Inl e"
    and acc: "\<And>x. (\<exists>y. f x = Inr y) \<longleftrightarrow> P x"
  shows "(\<exists>d'. for_each_at f k d = Inr d') \<longleftrightarrow>
         (case dict_get d k of None \<Rightarrow> True | Some v \<Rightarrow> accepts_each P v)"
proof (cases "dict_get d k")
  case None
  then show ?thesis by (simp add: for_each_at_def)
next
  case (Some v)
  have "(\<exists>d'. for_each_at f k d = Inr d') \<longleftrightarrow> (\<exists>v'. for_each_in_place f v = Inr v')"
    using Some by (auto simp: for_each_at_def split: sum.splits)
  with Some for_each_in_place_returns_iff [of f P v, OF str acc] show ?thesis by simp
qed

lemma validate_phase_returns_iff: "(\<exists>y. validate_phase p = Inr y) \<longleftrightarrow> phase_accepted p"
proof (cases p)
  case (JObj d)
  let ?d3 = "setdefault (setdefault (setdefault d (py ''key_actions'') (JArr []))
      (py ''success_criteria'') (JArr [])) (py ''common_mistakes'') (JArr [])"
  have g: "dict_get ?d3 (py ''key_actions'')
      = (if dict_has d (py ''key_actions'') then dict_get d (py ''key_actions'')
         else Some (JArr []))"
    by (simp add: dict_get_setdefault)
  have "(\<exists>y. validate_phase p = Inr y)
      \<longleftrightarrow> (\<exists>d4. for_each_at validate_action (py ''key_actions'') ?d3 = Inr d4)"
    using JObj by (auto simp: validate_phase_def Let_def split: sum.splits)
  also have "\<dots> \<longleftrightarrow> (case dict_get ?d3 (py ''key_actions'') of None \<Rightarrow> True
          | Some v \<Rightarrow> accepts_each action_accepted v)"
    by (rule for_each_at_returns_iff [of validate_action action_accepted,
          OF validate_action_str validate_action_returns_iff])
  also have "\<dots> \<longleftrightarrow> phase_accepted p"
    using JObj unfolding g
    by (auto simp: phase_accepted_def dict_has_def accepts_each_def split: option.splits)
  finally show ?thesis .
qed (auto simp: validate_phase_def phase_accepted_def)

lemma fill_benchmarks_returns_iff:
  "(\<exists>d'. fill_benchmarks d = Inr d') \<longleftrightarrow>
   (case dict_get d (py ''benchmarks'') of None \<Rightarrow> True | Some (JObj b) \<Rightarrow> True
    | Some other \<Rightarrow> False)"
  by (auto simp: fill_benchmarks_def Let_def dict_get_setdefault dict_has_def
      split: option.splits json.splits)

lemma validate_rubric_returns_iff:
  "(\<exists>r. validate_rubric now v = Inr r) \<longleftrightarrow> rubric_accepted v"
proof (cases v)
  case (JObj d)
  let ?d1 = "foldl fill_required d required_fields"
  let ?d2 = "ensure_arrays ?d1"
  have p1: "dict_get ?d1 (py ''phases'') = dict_get d (py ''phases'')"
    by (rule fill_required_other) (simp add: required_fields_def)
  have p2: "dict_get ?d2 (py ''phases'')
      = (if dict_has d (py ''phases'') then dict_get d (py ''phases'') else Some (JArr []))"
    using p1 by (simp add: ensure_arrays_def Let_def dict_get_setdefault dict_has_def)
  have b1: "dict_get ?d1 (py ''benchmarks'') = dict_get d (py ''benchmarks'')"
    by (rule fill_required_other) (simp add: required_fields_def)
  have b2: "dict_get ?d2 (py ''benchmarks'') = dict_get d (py ''benchmarks'')"
    using b1 by (simp add: ensure_arrays_def Let_def dict_get_setdefault)
  have ph: "(\<exists>d3. for_each_at validate_phase (py ''phases'') ?d2 = Inr d3)
      \<longleftrightarrow> (case dict_get d (py ''phases'') of None \<Rightarrow> True
           | Some pv \<Rightarrow> accepts_each phase_accepted pv)"
    using for_each_at_returns_iff [of validate_phase phase_accepted "py ''phases''" ?d2,
        OF validate_phase_str validate_phase_returns_iff]
    unfolding p2
    by (auto simp: dict_has_def accepts_each_def split: option.splits)
  have bm: "(\<exists>d4. fill_benchmarks d3 = Inr d4)
      \<longleftrightarrow> (case dict_get d (py ''benchmarks'') of None \<Rightarrow> True | Some (JObj b) \<Rightarrow> True
           | Some other \<Rightarrow> False)"
    if "for_each_at validate_phase (py ''phases'') ?d2 = Inr d3" for d3
  proof -
    from for_each_at_get [OF that, of "py ''benchmarks''"] b2
    have "dict_get d3 (py ''benchmarks'') = dict_get d (py ''benchmarks'')" by simp
    then show ?thesis by (simp add: fill_benchmarks_returns_iff)
  qed
  have "(\<exists>r. validate_rubric now v = Inr r)
      \<longleftrightarrow> (\<exists>d3. for_each_at validate_phase (py ''phases'') ?d2 = Inr d3
              \<and> (\<exists>d4. fill_benchmarks d3 = Inr d4))"
    using JObj by (auto simp: validate_rubric_def Let_def split: sum.splits)
  also have "\<dots> \<longleftrightarrow> rubric_accepted v"
    using JObj ph bm by (auto simp: rubric_accepted_def)
  finally show ?thesis .
qed (auto simp: validate_rubric_def rubric_accepted_def)

lemma validate_rubric_error_kinds:
  "validate_rubric now v = Inl e \<Longrightarrow> e = TypeError \<or> e = AttributeError"
proof -
  assume a: "validate_rubric now v = Inl e"
  have act: "validate_action x = Inl e' \<Longrightarrow> e' = TypeError \<or> e' = AttributeError" for x e'
    by (auto simp: validate_action_def split: json.splits)
  have it: "py_iter x = Inl e' \<Longrightarrow> e' = TypeError" for x e' by (cases x) auto
  have fe: "e' = TypeError \<or> e' = AttributeError"
    if f: "\<And>y e'. f y = Inl e' \<Longrightarrow> e' = TypeError \<or> e' = AttributeError"
      and e: "for_each_in_place f x = Inl e'" for f x e'
  proof -
    from e have "(\<exists>xs. map_result f xs = Inl e') \<or> py_iter x = Inl e'"
      by (auto simp: for_each_in_place_def split: json.splits sum.splits)
    then show ?thesis
    proof
      assume "\<exists>xs. map_result f xs = Inl e'"
      then obtain xs where "map_result f xs = Inl e'" ..
      from map_result_errors [OF this] f show ?thesis by blast
    next
      assume "py_iter x = Inl e'"
      with it show ?thesis by blast
    qed
  qed
  have fa: "e' = TypeError \<or> e' = AttributeError"
    if f: "\<And>y e'. f y = Inl e' \<Longrightarrow> e' = TypeError \<or> e' = AttributeError"
      and e: "for_each_at f k x = Inl e'" for f k x e'
  proof -
    from e obtain v where "for_each_in_place f v = Inl e'"
      by (auto simp: for_each_at_def split: option.splits sum.splits)
    with fe [of f] f show ?thesis by blast
  qed
  have ph: "e' = TypeError \<or> e' = AttributeError" if "validate_phase x = Inl e'" for x e'
  proof (cases x)
    case (JObj d)
    with that obtain d3 where "for_each_at validate_action (py ''key_actions'') d3 = Inl e'"
      by (auto simp: validate_phase_def Let_def split: sum.splits)
    with fa [of validate_action] act show ?thesis by blast
  qed (use that in \<open>auto simp: validate_phase_def\<close>)
  have fb: "fill_benchmarks x = Inl e' \<Longrightarrow> e' = AttributeError" for x e'
    by (auto simp: fill_benchmarks_def Let_def split: option.splits json.splits)
  show ?thesis
  proof (cases v)
    case (JObj d)
    with a have "(\<exists>d2. for_each_at validate_phase (py ''phases'') d2 = Inl e)
        \<or> (\<exists>d3. fill_benchmarks d3 = Inl e)"
      by (auto simp: validate_rubric_def Let_def split: sum.splits)
    with fa [of validate_phase] ph fb show ?thesis by blast
  qed (use a in \<open>auto simp: validate_rubric_def\<close>)
qed

lemma validate_rubric_again:
  assumes "validate_rubric now v = Inr r"
  shows "validate_rubric now' (JObj r) = Inr (dict_set r (py ''_meta'') (meta_entry now'))"
proof -
  from assms obtain d where v: "v = JObj d" by (auto elim: validate_rubric_stages)
  note a = assms [unfolded v]
  from validate_rubric_shape [OF assms]
  have req: "list_all (field_filled r) required_fields"
    and arr: "list_all (dict_has r) array_fields"
    by (simp_all add: rubric_shape_def)
  from validate_rubric_benchmarks [OF a] obtain b0 where
    bm: "dict_get r (py ''benchmarks'')
       = Some (JObj (foldl (\<lambda>b key. setdefault b key JNull) b0 benchmark_keys))" by blast
  have bk: "list_all (dict_has (foldl (\<lambda>b key. setdefault b key JNull) b0 benchmark_keys))
      benchmark_keys"
    by (auto simp: list_all_iff dict_has_def foldl_setdefault_get)
  from validate_rubric_phases [OF a] obtain pv pv' where
    p: "dict_get r (py ''phases'') = Some pv'" "for_each_in_place validate_phase pv = Inr pv'"
    by blast
  from for_each_in_place_again [OF p(2) validate_phase_again]
  have "for_each_in_place validate_phase pv' = Inr pv'" .
  with p(1) have fa: "for_each_at validate_phase (py ''phases'') r = Inr r"
    by (simp add: for_each_at_def dict_set_same)
  have fb: "fill_benchmarks r = Inr r" using bm bk by (rule fill_benchmarks_again)
  show ?thesis
    by (simp add: validate_rubric_def Let_def fill_required_again [OF req]
        ensure_arrays_again [OF arr] fa fb)
qed

subsection \<open>The claims about \<open>parse_rubric_json\<close> and \<open>_validate_rubric\<close>\<close>

text \<open>The equations that evaluate the string functions on a literal text.\<close>

lemmas string_eval = py_def strip_def is_space_def extract_fenced_def search_fence_def
  py_contains_def py_find_def occurs_at_def upt_rec

lemma sample_rubric_accepted: "rubric_accepted sample_rubric_value"
  by (simp add: rubric_accepted_def sample_rubric_value_def dict_get_def phase_accepted_def
      accepts_each_def action_accepted_def)



subsection \<open>Texts without a fence and without outer whitespace\<close>

lemma not_py_contains:
  assumes "c \<in> set sub" "c \<notin> set s"
  shows "\<not> py_contains s sub"
proof
  assume "py_contains s sub"
  then have "filter (occurs_at s sub) [0 ..< Suc (length s) - length sub] \<noteq> []"
    by (auto simp: py_contains_def py_find_def split: list.splits)
  then obtain p where "occurs_at s sub p" by (auto simp: filter_empty_conv)
  then have "sub = take (length sub) (drop p s)" by (simp add: occurs_at_def)
  then have "set sub \<subseteq> set s"
    by (metis set_take_subset set_drop_subset subset_trans)
  with assms show False by blast
qed

lemma extract_fenced_plain: "96 \<notin> set content \<Longrightarrow> extract_fenced content = content"
  using not_py_contains [of 96 "py ''```json''" content] not_py_contains [of 96 "py ''```''" content]
  by (simp add: extract_fenced_def py_def)

lemma strip_plain:
  assumes "s \<noteq> []" "\<not> is_space (hd s)" "\<not> is_space (last s)"
  shows "strip s = s"
proof -
  from assms(1,2) have a: "dropWhile is_space s = s" by (cases s) auto
  from assms(1,3) have "dropWhile is_space (rev s) = rev s"
    by (cases "rev s") (auto simp: hd_rev [symmetric])
  with a show ?thesis by (simp add: strip_def)
qed

lemma deep_open_text: "strip (extract_fenced deep_open) = deep_open"
proof -
  have "extract_fenced deep_open = deep_open"
    by (rule extract_fenced_plain) (simp add: deep_open_def)
  moreover have "strip deep_open = deep_open"
    by (rule strip_plain) (simp_all add: deep_open_def is_space_def)
  ultimately show ?thesis by simp
qed

lemma deep_lists_text: "strip (extract_fenced deep_lists) = deep_lists"
proof -
  have "extract_fenced deep_lists = deep_lists"
    by (rule extract_fenced_plain) (simp add: deep_lists_def)
  moreover have "strip deep_lists = deep_lists"
    by (rule strip_plain) (simp_all add: deep_lists_def is_space_def)
  ultimately show ?thesis by simp
qed

lemma sample_loads_deep_open: "sample_loads deep_open = LoadRaised RecursionError"
  by (simp add: sample_loads_def deep_open_def)

lemma sample_loads_deep_lists: "sample_loads deep_lists = LoadRaised RecursionError"
proof -
  have "takeWhile (\<lambda>c. c = 91) (replicate 100000 (91 :: nat) @ replicate 100000 93)
      = replicate 100000 91 @ takeWhile (\<lambda>c. c = 91) (replicate 100000 93)"
    by (rule takeWhile_append2) simp
  then have "length (takeWhile (\<lambda>c. c = 91) deep_lists) = 100000"
    by (simp add: deep_lists_def)
  then show ?thesis by (simp add: sample_loads_def)
qed

text \<open>
  Claim C5, as far as it holds. With \<open>text\<close> the content after taking the body of a code
  fence and stripping: (1) \<open>parse_rubric_json\<close> raises \<open>ValueError\<close> exactly when
  \<open>json.loads\<close> raises \<open>JSONDecodeError\<close> on \<open>text\<close>, which it does only on a text that
  is not valid JSON, or raises a \<open>ValueError\<close> of its own. (2) When \<open>json.loads\<close>
  returns a value that \<open>rubric_accepted\<close> accepts, the call returns the validated
  rubric: the value is a dict whose \<open>phases\<close>, when present, can be looped over and
  holds only dicts whose \<open>key_actions\<close>, when present, can be looped over and hold only
  dicts, and whose \<open>benchmarks\<close>, when present, is a dict. (3) On every other decoded
  value the call raises \<open>TypeError\<close> or \<open>AttributeError\<close>. (4) Every other exception of
  \<open>json.loads\<close> is raised by the call as it is.
\<close>

theorem parse_rubric_json_raises:
  "(parse_rubric_json loads now content = Inl ValueError
      \<longleftrightarrow> loads (strip (extract_fenced content)) = DecodeError
        \<or> loads (strip (extract_fenced content)) = LoadRaised ValueError)
   \<and> (loads1 (strip (extract_fenced content1)) = Loaded v1 \<and> rubric_accepted v1 \<longrightarrow>
        (\<exists>r. parse_rubric_json loads1 now1 content1 = Inr r \<and> validate_rubric now1 v1 = Inr r))
   \<and> (loads2 (strip (extract_fenced content2)) = Loaded v2 \<and> \<not> rubric_accepted v2 \<longrightarrow>
        parse_rubric_json loads2 now2 content2 = Inl TypeError
        \<or> parse_rubric_json loads2 now2 content2 = Inl AttributeError)
   \<and> (loads3 (strip (extract_fenced content3)) = LoadRaised e3 \<longrightarrow>
        parse_rubric_json loads3 now3 content3 = Inl e3)"
proof (intro conjI impI)
  show "parse_rubric_json loads now content = Inl ValueError
      \<longleftrightarrow> loads (strip (extract_fenced content)) = DecodeError
        \<or> loads (strip (extract_fenced content)) = LoadRaised ValueError"
    using validate_rubric_never_ValueError
    by (auto simp: parse_rubric_json_def split: load_outcome.splits)
next
  assume a: "loads1 (strip (extract_fenced content1)) = Loaded v1 \<and> rubric_accepted v1"
  then obtain r where "validate_rubric now1 v1 = Inr r"
    using validate_rubric_returns_iff by blast
  with a show "\<exists>r. parse_rubric_json loads1 now1 content1 = Inr r
      \<and> validate_rubric now1 v1 = Inr r"
    by (simp add: parse_rubric_json_def)
next
  assume a: "loads2 (strip (extract_fenced content2)) = Loaded v2 \<and> \<not> rubric_accepted v2"
  then have "\<not> (\<exists>r. validate_rubric now2 v2 = Inr r)"
    using validate_rubric_returns_iff by blast
  then obtain e where e: "validate_rubric now2 v2 = Inl e"
    by (cases "validate_rubric now2 v2") auto
  from validate_rubric_error_kinds [OF e] e a
  show "parse_rubric_json loads2 now2 content2 = Inl TypeError
        \<or> parse_rubric_json loads2 now2 content2 = Inl AttributeError"
    by (auto simp: parse_rubric_json_def)
next
  assume "loads3 (strip (extract_fenced content3)) = LoadRaised e3"
  then show "parse_rubric_json loads3 now3 content3 = Inl e3"
    by (simp add: parse_rubric_json_def)
qed

theorem parse_rubric_json_raises_witness:
  "sample_loads (strip (extract_fenced (py '' {} ''))) = Loaded (JObj [])
   \<and> rubric_accepted (JObj [])
   \<and> (\<exists>r. parse_rubric_json sample_loads (py ''2024-05-01T12:00:00'') (py '' {} '') = Inr r)
   \<and> sample_loads (strip (extract_fenced (py ''5''))) = Loaded (JInt 5)
   \<and> \<not> rubric_accepted (JInt 5)
   \<and> parse_rubric_json sample_loads (py ''2024-05-01T12:00:00'') (py ''5'') \<noteq> Inl ValueError
   \<and> parse_rubric_json sample_loads (py ''2024-05-01T12:00:00'') (py ''{'') = Inl ValueError
   \<and> sample_loads (strip (extract_fenced deep_open)) = LoadRaised RecursionError
   \<and> parse_rubric_json sample_loads (py ''2024-05-01T12:00:00'') deep_open = Inl RecursionError"
proof -
  have l1: "sample_loads (strip (extract_fenced (py '' {} ''))) = Loaded (JObj [])"
    by (simp add: sample_loads_def string_eval)
  have a1: "rubric_accepted (JObj [])" by (simp add: rubric_accepted_def dict_get_def)
  have l2: "sample_loads (strip (extract_fenced (py ''5''))) = Loaded (JInt 5)"
    by (simp add: sample_loads_def string_eval)
  have a2: "\<not> rubric_accepted (JInt 5)" by (simp add: rubric_accepted_def)
  have l3: "sample_loads (strip (extract_fenced (py ''{''))) = DecodeError"
    by (simp add: sample_loads_def sample_rubric_text_def string_eval)
  have l4: "sample_loads (strip (extract_fenced deep_open)) = LoadRaised RecursionError"
    by (simp add: deep_open_text sample_loads_deep_open)
  note t = parse_rubric_json_raises [of sample_loads "py ''2024-05-01T12:00:00''" "py ''{''"
      sample_loads "py '' {} ''" "JObj []" "py ''2024-05-01T12:00:00''"
      sample_loads "py ''5''" "JInt 5" "py ''2024-05-01T12:00:00''"
      sample_loads deep_open RecursionError "py ''2024-05-01T12:00:00''"]
  from t l1 a1
  have c1: "\<exists>r. parse_rubric_json sample_loads (py ''2024-05-01T12:00:00'') (py '' {} '') = Inr r"
    by blast
  from t l2 a2
  have "parse_rubric_json sample_loads (py ''2024-05-01T12:00:00'') (py ''5'') = Inl TypeError
      \<or> parse_rubric_json sample_loads (py ''2024-05-01T12:00:00'') (py ''5'')
         = Inl AttributeError" by blast
  then have c2: "parse_rubric_json sample_loads (py ''2024-05-01T12:00:00'') (py ''5'')
      \<noteq> Inl ValueError" by auto
  from t l3
  have c3: "parse_rubric_json sample_loads (py ''2024-05-01T12:00:00'') (py ''{'')
      = Inl ValueError" by blast
  from t l4
  have c4: "parse_rubric_json sample_loads (py ''2024-05-01T12:00:00'') deep_open
      = Inl RecursionError" by blast
  from l1 a1 c1 l2 a2 c2 c3 l4 c4 show ?thesis by blast
qed

text \<open>
  The claim as written fails in both directions. The text \<open>[]\<close> is valid JSON, and the
  call raises \<open>TypeError\<close> on it. The text of 100000 nested empty lists is valid JSON,
  and the call raises \<open>RecursionError\<close> on it. The text of 100000 opening brackets is
  not valid JSON, and the call raises \<open>RecursionError\<close> on it, not \<open>ValueError\<close>.
\<close>

theorem parse_rubric_json_valid_json_counterexample:
  "sample_loads (strip (extract_fenced (py ''[]''))) = Loaded (JArr [])
   \<and> parse_rubric_json sample_loads (py ''2024-05-01T12:00:00'') (py ''[]'') = Inl TypeError
   \<and> parse_rubric_json sample_loads (py ''2024-05-01T12:00:00'') deep_lists = Inl RecursionError
   \<and> parse_rubric_json sample_loads (py ''2024-05-01T12:00:00'') deep_open = Inl RecursionError
   \<and> parse_rubric_json sample_loads (py ''2024-05-01T12:00:00'') deep_open \<noteq> Inl ValueError"
proof -
  have l: "sample_loads (strip (extract_fenced (py ''[]''))) = Loaded (JArr [])"
    by (simp add: sample_loads_def string_eval)
  then have "parse_rubric_json sample_loads (py ''2024-05-01T12:00:00'') (py ''[]'')
      = Inl TypeError"
    by (simp add: parse_rubric_json_def validate_rubric_def)
  moreover have "parse_rubric_json sample_loads (py ''2024-05-01T12:00:00'') deep_lists
      = Inl RecursionError"
    by (simp add: parse_rubric_json_def deep_lists_text sample_loads_deep_lists)
  moreover have "parse_rubric_json sample_loads (py ''2024-05-01T12:00:00'') deep_open
      = Inl RecursionError"
    by (simp add: parse_rubric_json_def deep_open_text sample_loads_deep_open)
  ultimately show ?thesis using l by simp
qed

text \<open>
  Claim C6. When \<open>_validate_rubric\<close> returns \<open>r\<close>, applying it to \<open>r\<close> again (at any
  later time \<open>now'\<close>) returns \<open>r\<close> with only the \<open>_meta\<close> entry replaced, so the two
  rubrics agree on every key other than \<open>_meta\<close>.
\<close>

theorem validate_rubric_idempotent:
  assumes "validate_rubric now v = Inr r"
  shows "validate_rubric now' (JObj r) = Inr (dict_set r (py ''_meta'') (meta_entry now'))
    \<and> (\<forall>k. k \<noteq> py ''_meta'' \<longrightarrow>
          dict_get (dict_set r (py ''_meta'') (meta_entry now')) k = dict_get r k)"
  using validate_rubric_again [OF assms] by simp

theorem validate_rubric_idempotent_witness:
  "\<exists>r. validate_rubric (py ''2024-05-01T12:00:00'') sample_rubric_value = Inr r
       \<and> validate_rubric (py ''2024-05-02T08:30:00'') (JObj r)
          = Inr (dict_set r (py ''_meta'') (meta_entry (py ''2024-05-02T08:30:00'')))
       \<and> dict_get (dict_set r (py ''_meta'') (meta_entry (py ''2024-05-02T08:30:00'')))
            (py ''phases'') = dict_get r (py ''phases'')"
proof -
  from sample_rubric_accepted obtain r where r: "validate_rubric (py ''2024-05-01T12:00:00'') sample_rubric_value = Inr r"
    using validate_rubric_returns_iff by blast
  from validate_rubric_idempotent [OF r, of "py ''2024-05-02T08:30:00''"] r
  show ?thesis by auto
qed

section \<open>Properties of rubric ids and saving\<close>

lemma not_space_underscore [simp]: "\<not> is_space 95"
  by (simp add: is_space_def)

lemma set_sub_space_runs:
  "set (sub_space_runs x) \<subseteq> insert 95 {c \<in> set x. \<not> is_space c}"
proof (induction x rule: sub_space_runs.induct)
  case 1
  then show ?case by simp
next
  case (2 c cs)
  show ?case
  proof (cases "is_space c")
    case True
    with 2(1) have "set (sub_space_runs (dropWhile is_space cs))
        \<subseteq> insert 95 {c \<in> set (dropWhile is_space cs). \<not> is_space c}" by simp
    moreover have "set (dropWhile is_space cs) \<subseteq> set cs" by (rule set_dropWhileD [THEN subsetI])
    ultimately show ?thesis using True by auto
  next
    case False
    with 2(2) show ?thesis by auto
  qed
qed

lemma py_lower_no_capitals:
  assumes "lower_table_ok tab" "d \<in> set (py_lower tab s)"
  shows "\<not> (65 \<le> d \<and> d \<le> 90)"
proof -
  from assms(2) obtain i where i: "i < length s"
    "d \<in> set (if s ! i < 128 then [ascii_lower (s ! i)] else tab s i)"
    by (auto simp: py_lower_def)
  show ?thesis
  proof (cases "s ! i < 128")
    case True
    with i(2) show ?thesis by (auto simp: ascii_lower_def)
  next
    case False
    with i assms(1) show ?thesis unfolding lower_table_ok_def by (metis not_le)
  qed
qed

lemma set_strip: "set (strip x) \<subseteq> set x"
proof -
  have "set (strip x) = set (dropWhile is_space (rev (dropWhile is_space x)))"
    by (simp add: strip_def)
  also have "\<dots> \<subseteq> set (rev (dropWhile is_space x))" by (rule set_dropWhileD [THEN subsetI])
  also have "\<dots> \<subseteq> set x" using set_dropWhileD [of _ is_space x] by auto
  finally show ?thesis .
qed

lemma generate_rubric_id_chars:
  assumes "lower_table_ok tab" "c \<in> set (generate_rubric_id tab title author)"
  shows "is_slug_char c"
proof -
  let ?clean = "filter slug_keeps (py_lower tab title)"
  from assms(2) have "c \<in> set (sub_space_runs (strip ?clean))"
    by (auto simp: generate_rubric_id_def Let_def dest: in_set_takeD)
  with set_sub_space_runs have "c = 95 \<or> c \<in> set (strip ?clean) \<and> \<not> is_space c" by blast
  then show ?thesis
  proof
    assume "c = 95"
    then show ?thesis by (simp add: is_slug_char_def)
  next
    assume a: "c \<in> set (strip ?clean) \<and> \<not> is_space c"
    with set_strip have "c \<in> set ?clean" by blast
    then have "slug_keeps c" "c \<in> set (py_lower tab title)" by auto
    with py_lower_no_capitals [OF assms(1)] a show ?thesis
      by (auto simp: slug_keeps_def is_slug_char_def)
  qed
qed

subsection \<open>Stripping before or after the substitution\<close>

lemma sub_space_runs_head:
  "x \<noteq> [] \<Longrightarrow> \<not> is_space (hd x) \<Longrightarrow> sub_space_runs x = hd x # sub_space_runs (tl x)"
  by (cases x) auto

lemma sub_space_runs_dropWhile:
  assumes "95 \<notin> set x"
  shows "sub_space_runs (dropWhile is_space x) = dropWhile (\<lambda>c. c = 95) (sub_space_runs x)"
proof -
  have nohead: "dropWhile (\<lambda>c. c = 95) (sub_space_runs y) = sub_space_runs y"
    if "y = [] \<or> \<not> is_space (hd y)" "95 \<notin> set y" for y
  proof (cases y)
    case Nil
    then show ?thesis by simp
  next
    case (Cons c cs)
    with that show ?thesis by auto
  qed
  show ?thesis
  proof (cases x)
    case Nil
    then show ?thesis by simp
  next
    case (Cons c cs)
    show ?thesis
    proof (cases "is_space c")
      case True
      let ?y = "dropWhile is_space cs"
      have "?y = [] \<or> \<not> is_space (hd ?y)" using hd_dropWhile [of is_space cs] by auto
      moreover have "95 \<notin> set ?y" using assms Cons by (auto dest: set_dropWhileD)
      ultimately have "dropWhile (\<lambda>c. c = 95) (sub_space_runs ?y) = sub_space_runs ?y"
        by (rule nohead)
      with True Cons show ?thesis by simp
    next
      case False
      with Cons assms show ?thesis by auto
    qed
  qed
qed

lemma dropWhile_all: "\<forall>c \<in> set ws. P c \<Longrightarrow> dropWhile P ws = []"
  by (induction ws) auto

lemma sub_space_runs_spaces:
  "ws \<noteq> [] \<Longrightarrow> \<forall>c \<in> set ws. is_space c \<Longrightarrow> sub_space_runs ws = [95]"
  by (cases ws) (auto simp: dropWhile_all)

lemma last_dropWhile:
  "xs \<noteq> [] \<Longrightarrow> \<not> P (last xs) \<Longrightarrow>
   dropWhile P xs \<noteq> [] \<and> last (dropWhile P xs) = last xs"
  by (induction xs) (auto split: if_splits)

lemma sub_space_runs_trailing:
  assumes "ws \<noteq> []" "\<forall>c \<in> set ws. is_space c"
  shows "core = [] \<or> \<not> is_space (last core) \<Longrightarrow>
         sub_space_runs (core @ ws) = sub_space_runs core @ [95]"
proof (induction core rule: sub_space_runs.induct)
  case 1
  from assms show ?case by (simp add: sub_space_runs_spaces)
next
  case (2 c cs)
  show ?case
  proof (cases "is_space c")
    case True
    with 2(3) have ne: "cs \<noteq> []" and l: "\<not> is_space (last cs)"
      by (auto split: if_splits)
    then have mem: "last cs \<in> set cs" by simp
    have d: "dropWhile is_space (cs @ ws) = dropWhile is_space cs @ ws"
      using mem l by (rule dropWhile_append1)
    from last_dropWhile [of cs is_space, OF ne l]
    have "dropWhile is_space cs = [] \<or> \<not> is_space (last (dropWhile is_space cs))"
      using l by metis
    from 2(1) [OF True this] True d show ?thesis by simp
  next
    case False
    from 2(3) have "cs = [] \<or> \<not> is_space (last cs)" by (auto split: if_splits)
    from 2(2) [OF False this] False show ?thesis by simp
  qed
qed

lemma sub_space_runs_last:
  "core \<noteq> [] \<Longrightarrow> \<not> is_space (last core) \<Longrightarrow>
   sub_space_runs core \<noteq> [] \<and> last (sub_space_runs core) = last core"
proof (induction core rule: sub_space_runs.induct)
  case 1
  then show ?case by simp
next
  case (2 c cs)
  show ?case
  proof (cases "is_space c")
    case True
    with 2(3,4) have ne: "cs \<noteq> []" and l: "\<not> is_space (last cs)" by (auto split: if_splits)
    then have mem: "last cs \<in> set cs" by simp
    from last_dropWhile [of cs is_space, OF ne l]
    have dne: "dropWhile is_space cs \<noteq> []"
      and dl: "last (dropWhile is_space cs) = last cs" by blast+
    from l dl have l': "\<not> is_space (last (dropWhile is_space cs))" by metis
    from 2(1) [OF True dne l']
    have r: "sub_space_runs (dropWhile is_space cs) \<noteq> []"
      "last (sub_space_runs (dropWhile is_space cs)) = last (dropWhile is_space cs)" by blast+
    have "sub_space_runs (c # cs) = 95 # sub_space_runs (dropWhile is_space cs)"
      using True by simp
    with r dl ne show ?thesis by (metis last.simps list.distinct(1))
  next
    case False
    show ?thesis
    proof (cases "cs = []")
      case True
      with False show ?thesis by simp
    next
      case ne: False
      with 2(4) have "\<not> is_space (last cs)" by simp
      from 2(2) [OF False ne this] False ne show ?thesis by simp
    qed
  qed
qed

lemma sub_space_runs_rstrip:
  assumes "95 \<notin> set y"
  shows "sub_space_runs (rev (dropWhile is_space (rev y)))
       = rev (dropWhile (\<lambda>c. c = 95) (rev (sub_space_runs y)))"
proof -
  let ?core = "rev (dropWhile is_space (rev y))"
  let ?ws = "rev (takeWhile is_space (rev y))"
  have y: "y = ?core @ ?ws"
  proof -
    have "?core @ ?ws = rev (takeWhile is_space (rev y) @ dropWhile is_space (rev y))"
      by (simp only: rev_append)
    also have "\<dots> = rev (rev y)" by (simp only: takeWhile_dropWhile_id)
    finally show ?thesis by simp
  qed
  have ws: "\<forall>c \<in> set ?ws. is_space c" by (auto dest: set_takeWhileD)
  have core: "?core = [] \<or> \<not> is_space (last ?core)"
    using hd_dropWhile [of is_space "rev y"] by (auto simp: last_rev)
  have keep: "rev (dropWhile (\<lambda>c. c = 95) (rev (sub_space_runs ?core))) = sub_space_runs ?core"
  proof (cases "?core = []")
    case True
    show ?thesis unfolding True by simp
  next
    case False
    with core have l: "\<not> is_space (last ?core)" by blast
    from sub_space_runs_last [OF False l]
    have ne: "sub_space_runs ?core \<noteq> []" and la: "last (sub_space_runs ?core) = last ?core"
      by blast+
    from False have "last ?core \<in> set ?core" by (rule last_in_set)
    then have "last ?core \<in> set y" by (auto dest: set_dropWhileD)
    with assms have "last ?core \<noteq> 95" by auto
    with la ne have "hd (rev (sub_space_runs ?core)) \<noteq> 95" by (simp add: hd_rev)
    moreover from ne have "rev (sub_space_runs ?core) \<noteq> []" by simp
    ultimately have "dropWhile (\<lambda>c. c = 95) (rev (sub_space_runs ?core))
        = rev (sub_space_runs ?core)"
      by (cases "rev (sub_space_runs ?core)") auto
    then show ?thesis by simp
  qed
  show ?thesis
  proof (cases "?ws = []")
    case True
    with y have "y = ?core" by simp
    with keep show ?thesis by simp
  next
    case False
    from sub_space_runs_trailing [OF False ws core]
    have "sub_space_runs (?core @ ?ws) = sub_space_runs ?core @ [95]" .
    with y have "sub_space_runs y = sub_space_runs ?core @ [95]" by simp
    with keep show ?thesis by simp
  qed
qed

lemma sub_space_runs_strip:
  assumes "95 \<notin> set x"
  shows "sub_space_runs (strip x) = trim_underscores (sub_space_runs x)"
proof -
  have "95 \<notin> set (dropWhile is_space x)" using assms by (auto dest: set_dropWhileD)
  from sub_space_runs_rstrip [OF this] sub_space_runs_dropWhile [OF assms]
  show ?thesis by (simp add: strip_def trim_underscores_def)
qed

lemma generate_rubric_id_spec:
  "generate_rubric_id tab title author = take 50 (trim_underscores (spec_slug tab title))"
proof -
  have "95 \<notin> set (filter slug_keeps (py_lower tab title))"
    by (auto simp: slug_keeps_def)
  from sub_space_runs_strip [OF this] show ?thesis
    by (simp add: generate_rubric_id_def spec_slug_def Let_def)
qed

text \<open>The equations that evaluate a slug on a literal title.\<close>

lemmas slug_eval = generate_rubric_id_def spec_slug_def py_lower_def ascii_lower_def
  slug_keeps_def sample_lower_table_def py_def strip_def is_space_def upt_rec Let_def

lemma sample_lower_table_ok: "lower_table_ok sample_lower_table"
  by (auto simp: lower_table_ok_def sample_lower_table_def)

text \<open>
  Claim C8, as the code has it. (1) When the lower-case tables never yield an ASCII
  capital letter, the id holds only \<open>a..z\<close>, \<open>0..9\<close> and underscores. (2) It is at most
  50 characters long. (3) It is the slug of the specification (lower-case, delete what
  is not alphanumeric or whitespace, one underscore per whitespace run) with the
  underscores at its two ends removed, cut to its first 50 characters. (4) The author
  has no effect. (5) For a rubric with a string title, no output path (\<open>None\<close> or the
  empty string) and a \<open>json.dump\<close> that returns, \<open>save_rubric\<close> returns
  \<open>library_dir/<id>.json\<close> and that file holds the rubric with its \<open>id\<close> set. (6) With
  a non-empty output path it returns the path made of it and writes there. (7) When
  \<open>json.dump\<close> raises, \<open>save_rubric\<close> raises the same error, and the file holds a part of
  the document.
\<close>

theorem generate_rubric_id_slug:
  "(lower_table_ok tab1 \<longrightarrow>
      (\<forall>c \<in> set (generate_rubric_id tab1 title1 author1). is_slug_char c))
   \<and> length (generate_rubric_id tab title author) \<le> 50
   \<and> generate_rubric_id tab title author = take 50 (trim_underscores (spec_slug tab title))
   \<and> generate_rubric_id tab title author = generate_rubric_id tab title author'
   \<and> (rubric_title rubric2 = JStr title2
        \<and> (output_path2 = None \<or> output_path2 = Some [])
        \<and> dump2 (dict_set rubric2 (py ''id'') (JStr (generate_rubric_id tab2 title2 ()))) = Dumped
       \<longrightarrow>
        save_rubric tab2 path_of2 dump2 dir2 rubric2 output_path2 fs2
        = (Inr (library_file dir2 (generate_rubric_id tab2 title2 ())),
           dict_set rubric2 (py ''id'') (JStr (generate_rubric_id tab2 title2 ())),
           fs2(library_file dir2 (generate_rubric_id tab2 title2 ())
                 \<mapsto> Document (dict_set rubric2 (py ''id'')
                                (JStr (generate_rubric_id tab2 title2 ()))))))
   \<and> (rubric_title rubric3 = JStr title3 \<and> path3 \<noteq> []
        \<and> dump3 (dict_set rubric3 (py ''id'') (JStr (generate_rubric_id tab3 title3 ()))) = Dumped
       \<longrightarrow>
        save_rubric tab3 path_of3 dump3 dir3 rubric3 (Some path3) fs3
        = (Inr (path_of3 path3),
           dict_set rubric3 (py ''id'') (JStr (generate_rubric_id tab3 title3 ())),
           fs3(path_of3 path3
                 \<mapsto> Document (dict_set rubric3 (py ''id'')
                                (JStr (generate_rubric_id tab3 title3 ()))))))
   \<and> (rubric_title rubric4 = JStr title4
        \<and> dump4 (dict_set rubric4 (py ''id'') (JStr (generate_rubric_id tab4 title4 ())))
            = DumpRaised e4
       \<longrightarrow>
        (\<exists>filepath. save_rubric tab4 path_of4 dump4 dir4 rubric4 output_path4 fs4
           = (Inl e4, dict_set rubric4 (py ''id'') (JStr (generate_rubric_id tab4 title4 ())),
              fs4(filepath \<mapsto> Partial))))"
proof (intro conjI impI)
  assume ok: "lower_table_ok tab1"
  show "\<forall>c \<in> set (generate_rubric_id tab1 title1 author1). is_slug_char c"
  proof
    fix c
    assume "c \<in> set (generate_rubric_id tab1 title1 author1)"
    with ok show "is_slug_char c" by (rule generate_rubric_id_chars)
  qed
next
  show "length (generate_rubric_id tab title author) \<le> 50"
    by (simp add: generate_rubric_id_def Let_def)
next
  show "generate_rubric_id tab title author = take 50 (trim_underscores (spec_slug tab title))"
    by (rule generate_rubric_id_spec)
next
  show "generate_rubric_id tab title author = generate_rubric_id tab title author'"
    by (simp add: generate_rubric_id_def)
next
  assume "rubric_title rubric2 = JStr title2
        \<and> (output_path2 = None \<or> output_path2 = Some [])
        \<and> dump2 (dict_set rubric2 (py ''id'') (JStr (generate_rubric_id tab2 title2 ()))) = Dumped"
  then show "save_rubric tab2 path_of2 dump2 dir2 rubric2 output_path2 fs2
        = (Inr (library_file dir2 (generate_rubric_id tab2 title2 ())),
           dict_set rubric2 (py ''id'') (JStr (generate_rubric_id tab2 title2 ())),
           fs2(library_file dir2 (generate_rubric_id tab2 title2 ())
                 \<mapsto> Document (dict_set rubric2 (py ''id'')
                                (JStr (generate_rubric_id tab2 title2 ())))))"
    by (auto simp: save_rubric_def Let_def generate_rubric_id_def)
next
  assume "rubric_title rubric3 = JStr title3 \<and> path3 \<noteq> []
        \<and> dump3 (dict_set rubric3 (py ''id'') (JStr (generate_rubric_id tab3 title3 ()))) = Dumped"
  then show "save_rubric tab3 path_of3 dump3 dir3 rubric3 (Some path3) fs3
        = (Inr (path_of3 path3),
           dict_set rubric3 (py ''id'') (JStr (generate_rubric_id tab3 title3 ())),
           fs3(path_of3 path3
                 \<mapsto> Document (dict_set rubric3 (py ''id'')
                                (JStr (generate_rubric_id tab3 title3 ())))))"
    by (auto simp: save_rubric_def Let_def generate_rubric_id_def)
next
  assume "rubric_title rubric4 = JStr title4
        \<and> dump4 (dict_set rubric4 (py ''id'') (JStr (generate_rubric_id tab4 title4 ())))
            = DumpRaised e4"
  then show "\<exists>filepath. save_rubric tab4 path_of4 dump4 dir4 rubric4 output_path4 fs4
           = (Inl e4, dict_set rubric4 (py ''id'') (JStr (generate_rubric_id tab4 title4 ())),
              fs4(filepath \<mapsto> Partial))"
    by (auto simp: save_rubric_def Let_def generate_rubric_id_def)
qed

text \<open>
  The parts on samples: the id of a title; a rubric saved into the library and to a
  path of the caller; and a rubric whose description holds the lone surrogate \<open>U+D800\<close>,
  as \<open>json.loads\<close> makes it from the escape \<open>\ud800\<close>, on which the save raises.
\<close>

theorem generate_rubric_id_slug_witness:
  "lower_table_ok sample_lower_table
   \<and> generate_rubric_id sample_lower_table (py ''Fast Castle: 2 TC!'') ()
      = py ''fast_castle_2_tc''
   \<and> list_all is_slug_char (generate_rubric_id sample_lower_table (py ''Fast Castle: 2 TC!'') ())
   \<and> fst (save_rubric sample_lower_table plain_path utf8_dump (py ''rubric_library'')
        [(py ''title'', JStr (py ''Fast Castle: 2 TC!''))] None Map.empty)
      = Inr (py ''rubric_library/fast_castle_2_tc.json'')
   \<and> fst (save_rubric sample_lower_table plain_path utf8_dump (py ''rubric_library'')
        [(py ''title'', JStr (py ''Fast Castle: 2 TC!''))] (Some (py ''out/my.txt'')) Map.empty)
      = Inr (py ''out/my.txt'')
   \<and> fst (save_rubric sample_lower_table plain_path utf8_dump (py ''rubric_library'')
        [(py ''title'', JStr (py ''Fast Castle: 2 TC!'')), (py ''description'', JStr [55296])]
        None Map.empty)
      = Inl UnicodeEncodeError"
proof -
  let ?title = "py ''Fast Castle: 2 TC!''"
  let ?rubric = "[(py ''title'', JStr ?title)]"
  let ?bad = "[(py ''title'', JStr ?title), (py ''description'', JStr [55296])]"
  have e: "generate_rubric_id sample_lower_table ?title () = py ''fast_castle_2_tc''"
    by (simp add: slug_eval)
  have f: "library_file (py ''rubric_library'') (py ''fast_castle_2_tc'')
      = py ''rubric_library/fast_castle_2_tc.json''"
    by (simp add: library_file_def py_def)
  have d: "utf8_dump (dict_set ?rubric (py ''id'') (JStr (py ''fast_castle_2_tc''))) = Dumped"
    by (simp add: utf8_dump_def dict_set_def is_surrogate_def py_def)
  have b: "utf8_dump (dict_set ?bad (py ''id'') (JStr (py ''fast_castle_2_tc'')))
      = DumpRaised UnicodeEncodeError"
    by (simp add: utf8_dump_def dict_set_def is_surrogate_def py_def)
  have h2: "rubric_title ?rubric = JStr ?title
      \<and> ((None :: pystr option) = None \<or> (None :: pystr option) = Some [])
      \<and> utf8_dump (dict_set ?rubric (py ''id'')
           (JStr (generate_rubric_id sample_lower_table ?title ()))) = Dumped"
    using d by (simp add: rubric_title_def dict_get_def e)
  have h3: "rubric_title ?rubric = JStr ?title \<and> py ''out/my.txt'' \<noteq> []
      \<and> utf8_dump (dict_set ?rubric (py ''id'')
           (JStr (generate_rubric_id sample_lower_table ?title ()))) = Dumped"
    using d by (simp add: rubric_title_def dict_get_def e)
  have h4: "rubric_title ?bad = JStr ?title
      \<and> utf8_dump (dict_set ?bad (py ''id'')
           (JStr (generate_rubric_id sample_lower_table ?title ())))
          = DumpRaised UnicodeEncodeError"
    using b by (simp add: rubric_title_def dict_get_def e)
  note t = generate_rubric_id_slug [of sample_lower_table ?title "()"
      sample_lower_table ?title "()" "()"
      ?rubric ?title None utf8_dump sample_lower_table plain_path "py ''rubric_library''"
      Map.empty
      ?rubric ?title "py ''out/my.txt''" utf8_dump sample_lower_table plain_path
      "py ''rubric_library''" Map.empty
      ?bad ?title utf8_dump sample_lower_table UnicodeEncodeError plain_path
      "py ''rubric_library''" None Map.empty]
  from t sample_lower_table_ok
  have c1: "list_all is_slug_char (generate_rubric_id sample_lower_table ?title ())"
    unfolding list_all_iff by blast
  from t h2
  have "fst (save_rubric sample_lower_table plain_path utf8_dump (py ''rubric_library'')
        ?rubric None Map.empty)
      = Inr (library_file (py ''rubric_library'')
               (generate_rubric_id sample_lower_table ?title ()))"
    by simp
  then have c2: "fst (save_rubric sample_lower_table plain_path utf8_dump (py ''rubric_library'')
        ?rubric None Map.empty) = Inr (py ''rubric_library/fast_castle_2_tc.json'')"
    by (simp add: e f)
  from t h3
  have c3: "fst (save_rubric sample_lower_table plain_path utf8_dump (py ''rubric_library'')
        ?rubric (Some (py ''out/my.txt'')) Map.empty) = Inr (py ''out/my.txt'')"
    by (simp add: plain_path_def)
  from t h4 obtain filepath where
    "save_rubric sample_lower_table plain_path utf8_dump (py ''rubric_library'') ?bad None Map.empty
       = (Inl UnicodeEncodeError,
          dict_set ?bad (py ''id'') (JStr (generate_rubric_id sample_lower_table ?title ())),
          Map.empty(filepath \<mapsto> Partial))"
    by blast
  then have c4: "fst (save_rubric sample_lower_table plain_path utf8_dump (py ''rubric_library'')
        ?bad None Map.empty) = Inl UnicodeEncodeError"
    by simp
  from sample_lower_table_ok e c1 c2 c3 c4 show ?thesis by blast
qed

text \<open>
  The claim as written fails in three places. The whitespace at the two ends of the
  cleaned title is stripped, not replaced: for the title \<open>" a"\<close> the id is \<open>a\<close>, while
  the three steps of the claim give \<open>_a\<close>. With an output path, \<open>save_rubric\<close> writes to
  that path, whose name is neither the slug nor ends in \<open>.json\<close>. And a rubric with a
  lone surrogate in one of its strings is not persisted: the call raises
  \<open>UnicodeEncodeError\<close> and the file in the library holds a part of the document.
\<close>

theorem generate_rubric_id_slug_counterexample:
  "generate_rubric_id sample_lower_table (py '' a'') () = py ''a''
   \<and> spec_slug sample_lower_table (py '' a'') = py ''_a''
   \<and> generate_rubric_id sample_lower_table (py '' a'') ()
       \<noteq> spec_slug sample_lower_table (py '' a'')
   \<and> fst (save_rubric sample_lower_table plain_path utf8_dump (py ''rubric_library'')
        [(py ''title'', JStr (py ''Fast Castle''))] (Some (py ''out/my.txt'')) Map.empty)
      = Inr (py ''out/my.txt'')
   \<and> save_rubric sample_lower_table plain_path utf8_dump (py ''lib'')
        [(py ''title'', JStr (py ''a'')), (py ''description'', JStr [55296])] None Map.empty
      = (Inl UnicodeEncodeError,
         [(py ''title'', JStr (py ''a'')), (py ''description'', JStr [55296]),
          (py ''id'', JStr (py ''a''))],
         [py ''lib/a.json'' \<mapsto> Partial])"
proof -
  have a: "generate_rubric_id sample_lower_table (py '' a'') () = py ''a''"
    by (simp add: slug_eval)
  have b: "spec_slug sample_lower_table (py '' a'') = py ''_a''"
    by (simp add: slug_eval)
  have i: "generate_rubric_id sample_lower_table (py ''Fast Castle'') (rubric_author r)
      = py ''fast_castle''" for r
    by (simp add: slug_eval)
  have s1: "dict_set [(py ''title'', JStr (py ''Fast Castle''))] (py ''id'') (JStr (py ''fast_castle''))
      = [(py ''title'', JStr (py ''Fast Castle'')), (py ''id'', JStr (py ''fast_castle''))]"
    by (simp add: dict_set_def)
  have d1: "utf8_dump [(py ''title'', JStr (py ''Fast Castle'')), (py ''id'', JStr (py ''fast_castle''))]
      = Dumped"
    by (simp add: utf8_dump_def is_surrogate_def py_def)
  have c: "fst (save_rubric sample_lower_table plain_path utf8_dump (py ''rubric_library'')
        [(py ''title'', JStr (py ''Fast Castle''))] (Some (py ''out/my.txt'')) Map.empty)
      = Inr (py ''out/my.txt'')"
    by (simp add: save_rubric_def rubric_title_def dict_get_def Let_def i s1 d1 plain_path_def)
  have j: "generate_rubric_id sample_lower_table (py ''a'') (rubric_author r) = py ''a''" for r
    by (simp add: slug_eval)
  have s2: "dict_set [(py ''title'', JStr (py ''a'')), (py ''description'', JStr [55296])]
        (py ''id'') (JStr (py ''a''))
      = [(py ''title'', JStr (py ''a'')), (py ''description'', JStr [55296]),
         (py ''id'', JStr (py ''a''))]"
    by (simp add: dict_set_def)
  have d2: "utf8_dump [(py ''title'', JStr (py ''a'')), (py ''description'', JStr [55296]),
         (py ''id'', JStr (py ''a''))] = DumpRaised UnicodeEncodeError"
    by (simp add: utf8_dump_def is_surrogate_def py_def)
  have lf: "library_file (py ''lib'') (py ''a'') = py ''lib/a.json''"
    by (simp add: library_file_def py_def)
  have d: "save_rubric sample_lower_table plain_path utf8_dump (py ''lib'')
        [(py ''title'', JStr (py ''a'')), (py ''description'', JStr [55296])] None Map.empty
      = (Inl UnicodeEncodeError,
         [(py ''title'', JStr (py ''a'')), (py ''description'', JStr [55296]),
          (py ''id'', JStr (py ''a''))],
         [py ''lib/a.json'' \<mapsto> Partial])"
    by (simp add: save_rubric_def rubric_title_def dict_get_def Let_def j s2 d2 lf)
  from a b c d show ?thesis by simp
qed

section \<open>Merging rubrics: what the call returns and what it changes\<close>

subsection \<open>Keys\<close>

lemma py_eq_sym: "py_eq a b \<longleftrightarrow> py_eq b a"
  by (auto simp: py_eq_def split: option.splits)

lemma keyed_hashed: "keyed keyf x \<Longrightarrow> hashed keyf x = Inr (key_of keyf x)"
  by (auto simp: keyed_def hashed_def key_of_def split: sum.splits if_splits)

lemma map_result_keys:
  "list_all (keyed keyf) xs \<Longrightarrow> map_result (hashed keyf) xs = Inr (map (key_of keyf) xs)"
  by (induction xs) (auto simp: keyed_hashed)

lemma new_by_key_append:
  "new_by_key kf seen (xs @ ys)
   = new_by_key kf seen xs @ new_by_key kf (seen @ map kf (new_by_key kf seen xs)) ys"
  by (induction xs arbitrary: seen) auto

lemma in_set_append [simp]: "in_set k (xs @ ys) \<longleftrightarrow> in_set k xs \<or> in_set k ys"
  by (auto simp: in_set_def list_ex_iff)

lemma in_set_Cons [simp]: "in_set k (x # xs) \<longleftrightarrow> py_eq k x \<or> in_set k xs"
  by (simp add: in_set_def)

lemma in_set_Nil [simp]: "\<not> in_set k []"
  by (simp add: in_set_def)

lemma in_set_map: "in_set k (map kf xs) \<longleftrightarrow> (\<exists>x \<in> set xs. py_eq k (kf x))"
  by (auto simp: in_set_def list_ex_iff)

lemma new_by_key_distinct:
  "distinct_keys kf cur \<Longrightarrow> \<forall>y \<in> set cur. \<not> in_set (kf y) seen \<Longrightarrow>
   new_by_key kf seen (cur @ later) = cur @ new_by_key kf (seen @ map kf cur) later"
proof (induction cur arbitrary: seen)
  case Nil
  then show ?case by simp
next
  case (Cons x xs)
  from Cons.prems have nx: "\<not> in_set (kf x) seen" and d: "distinct_keys kf xs"
    and fresh: "\<not> in_set (kf x) (map kf xs)" by auto
  have "\<forall>y \<in> set xs. \<not> in_set (kf y) (seen @ [kf x])"
  proof
    fix y assume y: "y \<in> set xs"
    with Cons.prems(2) have "\<not> in_set (kf y) seen" by simp
    moreover from fresh y have "\<not> py_eq (kf x) (kf y)" by (auto simp: in_set_map)
    then have "\<not> py_eq (kf y) (kf x)" by (simp add: py_eq_sym)
    ultimately show "\<not> in_set (kf y) (seen @ [kf x])" by simp
  qed
  from Cons.IH [OF d this] nx show ?case by simp
qed

lemma dedup_by_key_distinct:
  "distinct_keys kf cur \<Longrightarrow> dedup_by_key kf (cur @ later) = cur @ new_by_key kf (map kf cur) later"
  using new_by_key_distinct [of kf cur "[]" later] by (simp add: dedup_by_key_def)

subsection \<open>Entries on a changed heap\<close>

lemma list_entry_upd:
  "entry_get r k \<noteq> Some (Ref a) \<Longrightarrow> list_entry (h(a := x)) r k = list_entry h r k"
  by (auto simp: list_entry_def split: option.splits entry.splits)

lemma dict_entry_upd:
  "entry_get r k \<noteq> Some (Ref a) \<Longrightarrow> dict_entry (h(a := x)) r k = dict_entry h r k"
  by (auto simp: dict_entry_def split: option.splits entry.splits)

lemma refers_to_list_upd:
  "entry_get r k \<noteq> Some (Ref a) \<Longrightarrow> refers_to_list (h(a := x)) r k = refers_to_list h r k"
  by (auto simp: refers_to_list_def split: option.splits entry.splits)

lemma refers_to_dict_upd:
  "entry_get r k \<noteq> Some (Ref a) \<Longrightarrow> refers_to_dict (h(a := x)) r k = refers_to_dict h r k"
  by (auto simp: refers_to_dict_def split: option.splits entry.splits)

lemma iter_entry_list:
  "refers_to_list h r k \<Longrightarrow> iter_entry h (entry_get r k) = Inr (list_entry h r k)"
  by (auto simp: refers_to_list_def iter_entry_def list_entry_def
      split: option.splits entry.splits obj.splits)

lemma items_entry_dict:
  "refers_to_dict h r k \<Longrightarrow> items_entry h (entry_get r k) = Inr (dict_entry h r k)"
  by (auto simp: refers_to_dict_def items_entry_def dict_entry_def
      split: option.splits entry.splits obj.splits)

subsection \<open>The loops over a list entry\<close>

lemma merge_items_result:
  assumes "entry_get merged field = Some (Ref a)"
  shows "h a = OList cur \<Longrightarrow> list_all (keyed keyf) xs \<Longrightarrow>
    merge_items keyf merged field xs (h, seen)
    = Inr (h(a := OList (cur @ new_by_key (key_of keyf) seen xs)),
           seen @ map (key_of keyf) (new_by_key (key_of keyf) seen xs))"
proof (induction xs arbitrary: h cur seen)
  case Nil
  then have "h(a := OList cur) = h" by auto
  then show ?case by simp
next
  case (Cons x xs)
  from Cons.prems have k: "hashed keyf x = Inr (key_of keyf x)" and ks: "list_all (keyed keyf) xs"
    by (auto simp: keyed_hashed)
  show ?case
  proof (cases "in_set (key_of keyf x) seen")
    case True
    with k Cons.IH [of h cur seen, OF Cons.prems(1) ks] show ?thesis
      by (simp del: fun_upd_apply)
  next
    case False
    let ?h = "h(a := OList (cur @ [x]))"
    have ap: "append_entry h merged field x = Inr ?h"
      using assms Cons.prems(1) by (simp add: append_entry_def)
    have "?h a = OList (cur @ [x])" by simp
    from Cons.IH [of ?h "cur @ [x]" "seen @ [key_of keyf x]", OF this ks]
    have "merge_items keyf merged field xs (?h, seen @ [key_of keyf x])
      = Inr (h(a := OList (cur @ x # new_by_key (key_of keyf) (seen @ [key_of keyf x]) xs)),
           seen @ key_of keyf x
             # map (key_of keyf) (new_by_key (key_of keyf) (seen @ [key_of keyf x]) xs))"
      by (simp del: fun_upd_apply)
    with k False ap show ?thesis by (simp del: fun_upd_apply)
  qed
qed

lemma merge_over_result:
  assumes "entry_get merged field = Some (Ref a)"
  shows "h a = OList cur \<Longrightarrow>
    \<forall>r \<in> set rest. entry_get r field \<noteq> Some (Ref a) \<and> refers_to_list h r field
        \<and> list_all (keyed keyf) (list_entry h r field) \<Longrightarrow>
    merge_over keyf merged field rest (h, seen)
    = Inr (h(a := OList (cur @ new_by_key (key_of keyf) seen (gathered h field rest))),
           seen @ map (key_of keyf) (new_by_key (key_of keyf) seen (gathered h field rest)))"
proof (induction rest arbitrary: h cur seen)
  case Nil
  then have "h(a := OList cur) = h" by auto
  then show ?case by (simp add: gathered_def)
next
  case (Cons r rest)
  let ?xs = "list_entry h r field"
  let ?new = "new_by_key (key_of keyf) seen ?xs"
  let ?h = "h(a := OList (cur @ ?new))"
  let ?seen = "seen @ map (key_of keyf) ?new"
  from Cons.prems(2) have r: "refers_to_list h r field" "list_all (keyed keyf) ?xs" by auto
  have it: "iter_entry h (entry_get r field) = Inr ?xs" using r(1) by (rule iter_entry_list)
  have mi: "merge_items keyf merged field ?xs (h, seen) = Inr (?h, ?seen)"
    using assms Cons.prems(1) r(2) by (rule merge_items_result)
  have ha: "?h a = OList (cur @ ?new)" by simp
  have same: "list_entry ?h r' field = list_entry h r' field" if "r' \<in> set rest" for r'
    using Cons.prems(2) that by (intro list_entry_upd) auto
  have rest': "\<forall>r \<in> set rest. entry_get r field \<noteq> Some (Ref a) \<and> refers_to_list ?h r field
        \<and> list_all (keyed keyf) (list_entry ?h r field)"
    using Cons.prems(2) by (auto simp: list_entry_upd refers_to_list_upd)
  have g: "gathered ?h field rest = gathered h field rest"
    unfolding gathered_def using same by (intro arg_cong [where f = concat] map_cong) auto
  have ga: "gathered h field (r # rest) = ?xs @ gathered h field rest"
    by (simp add: gathered_def)
  from Cons.IH [of ?h "cur @ ?new" ?seen, OF ha rest']
  have "merge_over keyf merged field rest (?h, ?seen)
    = Inr (h(a := OList (cur @ ?new @ new_by_key (key_of keyf) ?seen (gathered h field rest))),
           ?seen @ map (key_of keyf) (new_by_key (key_of keyf) ?seen (gathered h field rest)))"
    by (simp add: g del: fun_upd_apply)
  with it mi show ?case by (simp add: ga new_by_key_append del: fun_upd_apply)
qed

lemma merge_list_entry_result:
  assumes "entry_get merged field = Some (Ref a)" "h a = OList cur"
    and "list_all (keyed keyf) cur"
    and "\<forall>r \<in> set rest. entry_get r field \<noteq> Some (Ref a) \<and> refers_to_list h r field
        \<and> list_all (keyed keyf) (list_entry h r field)"
  shows "merge_list_entry keyf field merged rest h
    = Inr (h(a := OList (cur @ new_by_key (key_of keyf) (map (key_of keyf) cur)
                                  (gathered h field rest))))"
proof -
  have "iter_entry h (entry_get merged field) = Inr cur"
    using assms(1,2) by (simp add: iter_entry_def)
  moreover have "map_result (hashed keyf) cur = Inr (map (key_of keyf) cur)"
    using assms(3) by (rule map_result_keys)
  moreover note merge_over_result [OF assms(1,2,4), where seen = "map (key_of keyf) cur"]
  ultimately show ?thesis by (simp add: merge_list_entry_def)
qed

subsection \<open>The loops over the benchmarks\<close>

lemma merge_benchmark_items_result:
  assumes "entry_get merged (py ''benchmarks'') = Some (Ref a)"
  shows "h a = ODict b \<Longrightarrow>
    merge_benchmark_items merged items h = Inr (h(a := ODict (foldl fill_benchmark b items)))"
proof (induction items arbitrary: h b)
  case Nil
  then have "h(a := ODict b) = h" by auto
  then show ?case by simp
next
  case (Cons kv items)
  have miss: "benchmark_missing h merged (fst kv)
      = Inr (dict_get b (fst kv) = None \<or> dict_get b (fst kv) = Some JNull)"
    using assms Cons.prems by (simp add: benchmark_missing_def items_entry_def)
  show ?case
  proof (cases "snd kv \<noteq> JNull \<and> (dict_get b (fst kv) = None \<or> dict_get b (fst kv) = Some JNull)")
    case True
    let ?b = "dict_set b (fst kv) (snd kv)"
    let ?h = "h(a := ODict ?b)"
    have st: "store_benchmark h merged (fst kv) (snd kv) = Inr ?h"
      using assms Cons.prems by (simp add: store_benchmark_def)
    have "?h a = ODict ?b" by simp
    from Cons.IH [of ?h ?b, OF this]
    have "merge_benchmark_items merged items ?h
      = Inr (h(a := ODict (foldl fill_benchmark ?b items)))" by (simp del: fun_upd_apply)
    moreover have "fill_benchmark b kv = ?b" using True by (simp add: fill_benchmark_def)
    ultimately show ?thesis using True miss st by (simp del: fun_upd_apply)
  next
    case False
    have "fill_benchmark b kv = b" using False by (auto simp: fill_benchmark_def)
    with Cons.IH [of h b, OF Cons.prems] False miss show ?thesis
      by (auto simp del: fun_upd_apply)
  qed
qed

lemma merge_benchmarks_over_result:
  assumes "entry_get merged (py ''benchmarks'') = Some (Ref a)"
  shows "h a = ODict b \<Longrightarrow>
    \<forall>r \<in> set rest. entry_get r (py ''benchmarks'') \<noteq> Some (Ref a)
        \<and> refers_to_dict h r (py ''benchmarks'') \<Longrightarrow>
    merge_benchmarks_over merged rest h
    = Inr (h(a := ODict (foldl fill_benchmark b (gathered_benchmarks h rest))))"
proof (induction rest arbitrary: h b)
  case Nil
  then have "h(a := ODict b) = h" by auto
  then show ?case by (simp add: gathered_benchmarks_def)
next
  case (Cons r rest)
  let ?items = "dict_entry h r (py ''benchmarks'')"
  let ?b = "foldl fill_benchmark b ?items"
  let ?h = "h(a := ODict ?b)"
  from Cons.prems(2) have r: "refers_to_dict h r (py ''benchmarks'')" by auto
  have it: "items_entry h (entry_get r (py ''benchmarks'')) = Inr ?items"
    using r by (rule items_entry_dict)
  have mi: "merge_benchmark_items merged ?items h = Inr ?h"
    using assms Cons.prems(1) by (rule merge_benchmark_items_result)
  have ha: "?h a = ODict ?b" by simp
  have same: "dict_entry ?h r' (py ''benchmarks'') = dict_entry h r' (py ''benchmarks'')"
    if "r' \<in> set rest" for r'
    using Cons.prems(2) that by (intro dict_entry_upd) auto
  have rest': "\<forall>r \<in> set rest. entry_get r (py ''benchmarks'') \<noteq> Some (Ref a)
        \<and> refers_to_dict ?h r (py ''benchmarks'')"
    using Cons.prems(2) by (auto simp: refers_to_dict_upd)
  have g: "gathered_benchmarks ?h rest = gathered_benchmarks h rest"
    unfolding gathered_benchmarks_def using same
    by (intro arg_cong [where f = concat] map_cong) auto
  have ga: "gathered_benchmarks h (r # rest) = ?items @ gathered_benchmarks h rest"
    by (simp add: gathered_benchmarks_def)
  from Cons.IH [of ?h ?b, OF ha rest']
  have "merge_benchmarks_over merged rest ?h
    = Inr (h(a := ODict (foldl fill_benchmark ?b (gathered_benchmarks h rest))))"
    by (simp add: g del: fun_upd_apply)
  with it mi show ?case by (simp add: ga del: fun_upd_apply)
qed

lemma dict_get_fill_benchmarks:
  "dict_get (foldl fill_benchmark b items) key =
     (case dict_get b key of
        Some v \<Rightarrow> if v \<noteq> JNull then Some v
                  else (case first_value key items of Some v' \<Rightarrow> Some v' | None \<Rightarrow> Some JNull)
      | None \<Rightarrow> first_value key items)"
proof (induction items arbitrary: b)
  case Nil
  then show ?case by (auto split: option.splits)
next
  case (Cons kv items)
  show ?case
    unfolding foldl_Cons Cons.IH
    by (auto simp: fill_benchmark_def split: option.splits)
qed

subsection \<open>Rubrics that share no object\<close>

lemma entry_addr_member:
  "k \<in> set merged_fields \<Longrightarrow> entry_get r k = Some (Ref a) \<Longrightarrow> a \<in> set (entry_addrs r)"
  unfolding entry_addrs_def by (auto intro!: bexI [where x = k])

lemma gathered_cong:
  "(\<And>r. r \<in> set rs \<Longrightarrow> list_entry h' r k = list_entry h r k) \<Longrightarrow>
   gathered h' k rs = gathered h k rs"
  unfolding gathered_def by (intro arg_cong [where f = concat] map_cong) auto

lemma gathered_benchmarks_cong:
  "(\<And>r. r \<in> set rs \<Longrightarrow>
      dict_entry h' r (py ''benchmarks'') = dict_entry h r (py ''benchmarks'')) \<Longrightarrow>
   gathered_benchmarks h' rs = gathered_benchmarks h rs"
  unfolding gathered_benchmarks_def by (intro arg_cong [where f = concat] map_cong) auto

lemma gathered_upd:
  "\<forall>r \<in> set rs. entry_get r k \<noteq> Some (Ref a) \<Longrightarrow> gathered (h(a := x)) k rs = gathered h k rs"
  unfolding gathered_def
  by (intro arg_cong [where f = concat] map_cong) (auto simp: list_entry_upd)

lemma gathered_benchmarks_upd:
  "\<forall>r \<in> set rs. entry_get r (py ''benchmarks'') \<noteq> Some (Ref a) \<Longrightarrow>
   gathered_benchmarks (h(a := x)) rs = gathered_benchmarks h rs"
  unfolding gathered_benchmarks_def
  by (intro arg_cong [where f = concat] map_cong) (auto simp: dict_entry_upd)

lemma refers_to_list_addr:
  "refers_to_list h r k \<Longrightarrow> \<exists>a. entry_get r k = Some (Ref a) \<and> h a = OList (list_entry h r k)"
  by (auto simp: refers_to_list_def list_entry_def split: option.splits entry.splits obj.splits)

lemma refers_to_dict_addr:
  "refers_to_dict h r k \<Longrightarrow> \<exists>a. entry_get r k = Some (Ref a) \<and> h a = ODict (dict_entry h r k)"
  by (auto simp: refers_to_dict_def dict_entry_def split: option.splits entry.splits obj.splits)

lemma list_entry_at:
  "entry_get r k = Some (Ref a) \<Longrightarrow> h a = OList xs \<Longrightarrow> list_entry h r k = xs"
  by (simp add: list_entry_def)

lemma dict_entry_at:
  "entry_get r k = Some (Ref a) \<Longrightarrow> h a = ODict d \<Longrightarrow> dict_entry h r k = d"
  by (simp add: dict_entry_def)

lemma merge_list_entry_merged:
  assumes "entry_get merged field = Some (Ref a)" "h a = OList cur"
    and "list_all (keyed keyf) cur"
    and "\<forall>r \<in> set rest. entry_get r field \<noteq> Some (Ref a) \<and> refers_to_list h r field
        \<and> list_all (keyed keyf) (list_entry h r field)"
  shows "merge_list_entry keyf field merged rest h
    = Inr (h(a := OList (merged_list keyf cur (gathered h field rest))))"
  unfolding merged_list_def using assms by (rule merge_list_entry_result)

lemma merge_rubrics_merges:
  assumes later: "later \<noteq> []"
    and ok: "list_all (mergeable h) (r0 # later)"
    and un: "unshared r0 later"
  shows "\<exists>h'. merge_rubrics h (r0 # later) = Inr (r0, h')
    \<and> list_entry h' r0 (py ''phases'')
        = merged_list name_key (list_entry h r0 (py ''phases'')) (gathered h (py ''phases'') later)
    \<and> list_entry h' r0 (py ''key_insights'')
        = merged_list self_key (list_entry h r0 (py ''key_insights''))
            (gathered h (py ''key_insights'') later)
    \<and> list_entry h' r0 (py ''decision_points'')
        = merged_list trigger_key (list_entry h r0 (py ''decision_points''))
            (gathered h (py ''decision_points'') later)
    \<and> dict_entry h' r0 (py ''benchmarks'')
        = foldl fill_benchmark (dict_entry h r0 (py ''benchmarks'')) (gathered_benchmarks h later)"
proof -
  let ?P = "py ''phases''" and ?I = "py ''key_insights''"
  let ?B = "py ''benchmarks''" and ?D = "py ''decision_points''"
  from ok have m0: "mergeable h r0" and ml: "\<forall>r \<in> set later. mergeable h r"
    by (auto simp: list_all_iff)
  from m0 obtain ap where ap: "entry_get r0 ?P = Some (Ref ap)" "h ap = OList (list_entry h r0 ?P)"
    using refers_to_list_addr [of h r0 ?P] by (auto simp: mergeable_def)
  from m0 obtain ai where ai: "entry_get r0 ?I = Some (Ref ai)" "h ai = OList (list_entry h r0 ?I)"
    using refers_to_list_addr [of h r0 ?I] by (auto simp: mergeable_def)
  from m0 obtain ad where ad: "entry_get r0 ?D = Some (Ref ad)" "h ad = OList (list_entry h r0 ?D)"
    using refers_to_list_addr [of h r0 ?D] by (auto simp: mergeable_def)
  from m0 obtain ab where ab: "entry_get r0 ?B = Some (Ref ab)" "h ab = ODict (dict_entry h r0 ?B)"
    using refers_to_dict_addr [of h r0 ?B] by (auto simp: mergeable_def)
  have addrs: "entry_addrs r0 = [ap, ai, ab, ad]"
    using ap(1) ai(1) ab(1) ad(1) by (simp add: entry_addrs_def merged_fields_def)
  with un have dist: "ap \<noteq> ai" "ap \<noteq> ab" "ap \<noteq> ad" "ai \<noteq> ab" "ai \<noteq> ad" "ab \<noteq> ad"
    by (auto simp: unshared_def)
  have apart: "entry_get r k \<noteq> Some (Ref a)"
    if "r \<in> set later" "k \<in> set merged_fields" "a \<in> {ap, ai, ab, ad}" for r k a
  proof
    assume "entry_get r k = Some (Ref a)"
    with that(2) have "a \<in> set (entry_addrs r)" by (rule entry_addr_member)
    moreover from un that(1) have "\<forall>a \<in> set (entry_addrs r). a \<notin> set (entry_addrs r0)"
      by (auto simp: unshared_def list_all_iff)
    ultimately show False using that(3) addrs by auto
  qed
  have fields: "?P \<in> set merged_fields" "?I \<in> set merged_fields" "?B \<in> set merged_fields"
    "?D \<in> set merged_fields" by (simp_all add: merged_fields_def)
  let ?P' = "merged_list name_key (list_entry h r0 ?P) (gathered h ?P later)"
  let ?I' = "merged_list self_key (list_entry h r0 ?I) (gathered h ?I later)"
  let ?D' = "merged_list trigger_key (list_entry h r0 ?D) (gathered h ?D later)"
  let ?B' = "foldl fill_benchmark (dict_entry h r0 ?B) (gathered_benchmarks h later)"
  let ?h1 = "h(ap := OList ?P')"
  let ?h2 = "?h1(ai := OList ?I')"
  let ?h3 = "?h2(ab := ODict ?B')"
  let ?h4 = "?h3(ad := OList ?D')"
  \<comment> \<open>the phases\<close>
  have s1: "merge_list_entry name_key ?P r0 later h = Inr ?h1"
  proof (rule merge_list_entry_merged [of r0 ?P ap h "list_entry h r0 ?P" name_key later, OF ap])
    show "list_all (keyed name_key) (list_entry h r0 ?P)" using m0 by (simp add: mergeable_def)
    show "\<forall>r \<in> set later. entry_get r ?P \<noteq> Some (Ref ap) \<and> refers_to_list h r ?P
        \<and> list_all (keyed name_key) (list_entry h r ?P)"
      using ml apart fields by (auto simp: mergeable_def)
  qed
  \<comment> \<open>the key insights\<close>
  have f1: "list_entry ?h1 r k = list_entry h r k" "refers_to_list ?h1 r k = refers_to_list h r k"
    "dict_entry ?h1 r k = dict_entry h r k" "refers_to_dict ?h1 r k = refers_to_dict h r k"
    if "r \<in> set later" "k \<in> set merged_fields" for r k
    using apart [OF that, of ap]
    by (simp_all add: list_entry_upd refers_to_list_upd dict_entry_upd refers_to_dict_upd)
  have g1: "gathered ?h1 ?I later = gathered h ?I later"
    by (rule gathered_cong) (rule f1(1) [OF _ fields(2)])
  have s2: "merge_list_entry self_key ?I r0 later ?h1 = Inr ?h2"
    unfolding g1 [symmetric]
  proof (rule merge_list_entry_merged [of r0 ?I ai ?h1 "list_entry h r0 ?I" self_key later, OF ai(1)])
    show "?h1 ai = OList (list_entry h r0 ?I)" using ai(2) dist by simp
    show "list_all (keyed self_key) (list_entry h r0 ?I)" using m0 by (simp add: mergeable_def)
    show "\<forall>r \<in> set later. entry_get r ?I \<noteq> Some (Ref ai) \<and> refers_to_list ?h1 r ?I
        \<and> list_all (keyed self_key) (list_entry ?h1 r ?I)"
      using ml apart fields f1 by (auto simp: mergeable_def)
  qed
  \<comment> \<open>the benchmarks\<close>
  have f2: "list_entry ?h2 r k = list_entry h r k" "refers_to_list ?h2 r k = refers_to_list h r k"
    "dict_entry ?h2 r k = dict_entry h r k" "refers_to_dict ?h2 r k = refers_to_dict h r k"
    if "r \<in> set later" "k \<in> set merged_fields" for r k
    using apart [OF that, of ai] f1 [OF that]
    by (simp_all add: list_entry_upd refers_to_list_upd dict_entry_upd refers_to_dict_upd)
  have g2: "gathered_benchmarks ?h2 later = gathered_benchmarks h later"
    by (rule gathered_benchmarks_cong) (rule f2(3) [OF _ fields(3)])
  have s3: "merge_benchmarks_over r0 later ?h2 = Inr ?h3"
    unfolding g2 [symmetric]
  proof (rule merge_benchmarks_over_result [of r0 ab ?h2 "dict_entry h r0 ?B" later, OF ab(1)])
    show "?h2 ab = ODict (dict_entry h r0 ?B)" using ab(2) dist by simp
    show "\<forall>r \<in> set later. entry_get r ?B \<noteq> Some (Ref ab) \<and> refers_to_dict ?h2 r ?B"
      using ml apart fields f2 by (auto simp: mergeable_def)
  qed
  \<comment> \<open>the decision points\<close>
  have f3: "list_entry ?h3 r k = list_entry h r k" "refers_to_list ?h3 r k = refers_to_list h r k"
    if "r \<in> set later" "k \<in> set merged_fields" for r k
    using apart [OF that, of ab] f2 [OF that]
    by (simp_all add: list_entry_upd refers_to_list_upd)
  have g3: "gathered ?h3 ?D later = gathered h ?D later"
    by (rule gathered_cong) (rule f3(1) [OF _ fields(4)])
  have s4: "merge_list_entry trigger_key ?D r0 later ?h3 = Inr ?h4"
    unfolding g3 [symmetric]
  proof (rule merge_list_entry_merged [of r0 ?D ad ?h3 "list_entry h r0 ?D" trigger_key later, OF ad(1)])
    show "?h3 ad = OList (list_entry h r0 ?D)" using ad(2) dist by simp
    show "list_all (keyed trigger_key) (list_entry h r0 ?D)" using m0 by (simp add: mergeable_def)
    show "\<forall>r \<in> set later. entry_get r ?D \<noteq> Some (Ref ad) \<and> refers_to_list ?h3 r ?D
        \<and> list_all (keyed trigger_key) (list_entry ?h3 r ?D)"
      using ml apart fields f3 by (auto simp: mergeable_def)
  qed
  have len: "length (r0 # later) \<noteq> 1" using later by (cases later) auto
  have res: "merge_rubrics h (r0 # later) = Inr (r0, ?h4)"
    using len s1 s2 s3 s4 by (simp add: merge_rubrics_def Let_def del: fun_upd_apply)
  have e1: "list_entry ?h4 r0 ?P = ?P'" using ap(1) dist by (intro list_entry_at) auto
  have e2: "list_entry ?h4 r0 ?I = ?I'" using ai(1) dist by (intro list_entry_at) auto
  have e3: "list_entry ?h4 r0 ?D = ?D'" using ad(1) dist by (intro list_entry_at) auto
  have e4: "dict_entry ?h4 r0 ?B = ?B'" using ab(1) dist by (intro dict_entry_at) auto
  from res e1 e2 e3 e4 show ?thesis by blast
qed

lemma gathered_Cons: "gathered h k (r # rs) = list_entry h r k @ gathered h k rs"
  by (simp add: gathered_def)

lemma merged_list_dedup:
  "distinct_keys (key_of keyf) (list_entry h r0 k) \<Longrightarrow>
   merged_list keyf (list_entry h r0 k) (gathered h k later)
   = dedup_by_key (key_of keyf) (gathered h k (r0 # later))"
  by (simp add: merged_list_def gathered_Cons dedup_by_key_distinct)

lemmas merge_eval =
  merge_rubrics_def merge_list_entry_def iter_entry_def items_entry_def append_entry_def
  hashed_def name_key_def trigger_key_def self_key_def get_item_def entry_get_def
  benchmark_missing_def store_benchmark_def in_set_def py_eq_def dict_get_def dict_set_def
  list_entry_def dict_entry_def sample_first_def sample_second_def sample_heap_def twice_heap_def
  nameless_heap_def dark_age_def dark_age_again_def feudal_age_def Let_def

lemmas shape_eval =
  mergeable_def unshared_def entry_addrs_def merged_fields_def refers_to_list_def
  refers_to_dict_def keyed_def hashed_def name_key_def trigger_key_def self_key_def get_item_def
  entry_get_def dict_get_def list_entry_def dict_entry_def sample_first_def sample_second_def
  sample_heap_def twice_heap_def dark_age_def dark_age_again_def feudal_age_def

lemma sample_mergeable:
  "list_all (mergeable sample_heap) [sample_first, sample_second]"
  "unshared sample_first [sample_second]"
  by (simp_all add: shape_eval)

lemma twice_mergeable:
  "list_all (mergeable twice_heap) [sample_first, sample_second]"
  by (simp_all add: shape_eval)

lemma sample_merge:
  "merge_rubrics sample_heap [sample_first, sample_second]
   = Inr (sample_first, sample_heap
       (0 := OList [dark_age, feudal_age],
        1 := OList [JStr (py ''scout early''), JStr (py ''wall up'')],
        2 := ODict [(py ''feudal_age'', JInt 300), (py ''castle_age'', JInt 900)]))"
  by (simp add: merge_eval)

lemma twice_merge:
  "merged_entry twice_heap [sample_first, sample_second] (py ''phases'')
   = [dark_age, dark_age_again, feudal_age]"
  by (simp add: merged_entry_def merge_eval)

lemma nameless_merge:
  "merge_rubrics nameless_heap [sample_first, sample_second] = Inl KeyError"
  by (simp add: merge_eval)

text \<open>
  Claim C1, as the code has it. \<open>merge_rubrics\<close> returns the empty dict for the empty list and the one
  rubric of a one-element list. For a longer list whose rubrics hold their phases, key
  insights and decision points in lists and their benchmarks in a dict, share none of
  these objects with the first rubric, and whose phases have a hashable \<open>name\<close>, insights
  are hashable and decision points have a hashable \<open>trigger\<close>, the call returns the first
  rubric's entries with: each list entry made of the first rubric's elements as they are,
  followed by those elements of the later rubrics whose key is not among the keys before
  them; and the benchmarks of the first rubric where every pair of a later rubric whose
  value is not \<open>None\<close> has been stored if the key was missing or held \<open>None\<close>. When the
  first rubric's own elements have different keys, a list entry is the deduplication of
  the elements of all rubrics that keeps the first occurrence; and a benchmark key holds
  the first rubric's value unless that is \<open>None\<close> or missing, and otherwise the first
  value other than \<open>None\<close> of the later rubrics.
\<close>

theorem merge_rubrics_result:
  "merge_rubrics h0 [] = Inr ([], h0)
   \<and> merge_rubrics h1 [r] = Inr (r, h1)
   \<and> (later \<noteq> [] \<and> list_all (mergeable h) (r0 # later) \<and> unshared r0 later \<longrightarrow>
       (\<exists>h'. merge_rubrics h (r0 # later) = Inr (r0, h')
          \<and> list_entry h' r0 (py ''phases'')
              = merged_list name_key (list_entry h r0 (py ''phases''))
                  (gathered h (py ''phases'') later)
          \<and> list_entry h' r0 (py ''key_insights'')
              = merged_list self_key (list_entry h r0 (py ''key_insights''))
                  (gathered h (py ''key_insights'') later)
          \<and> list_entry h' r0 (py ''decision_points'')
              = merged_list trigger_key (list_entry h r0 (py ''decision_points''))
                  (gathered h (py ''decision_points'') later)
          \<and> dict_entry h' r0 (py ''benchmarks'')
              = foldl fill_benchmark (dict_entry h r0 (py ''benchmarks''))
                  (gathered_benchmarks h later)
          \<and> (distinct_keys (key_of name_key) (list_entry h r0 (py ''phases'')) \<longrightarrow>
               list_entry h' r0 (py ''phases'')
               = dedup_by_key (key_of name_key) (gathered h (py ''phases'') (r0 # later)))
          \<and> (distinct_keys (key_of self_key) (list_entry h r0 (py ''key_insights'')) \<longrightarrow>
               list_entry h' r0 (py ''key_insights'')
               = dedup_by_key (key_of self_key) (gathered h (py ''key_insights'') (r0 # later)))
          \<and> (distinct_keys (key_of trigger_key) (list_entry h r0 (py ''decision_points'')) \<longrightarrow>
               list_entry h' r0 (py ''decision_points'')
               = dedup_by_key (key_of trigger_key)
                   (gathered h (py ''decision_points'') (r0 # later)))
          \<and> (\<forall>key. dict_get (dict_entry h' r0 (py ''benchmarks'')) key
               = (case dict_get (dict_entry h r0 (py ''benchmarks'')) key of
                    Some v \<Rightarrow>
                      if v \<noteq> JNull then Some v
                      else (case first_value key (gathered_benchmarks h later) of
                              Some v' \<Rightarrow> Some v'
                            | None \<Rightarrow> Some JNull)
                  | None \<Rightarrow> first_value key (gathered_benchmarks h later)))))"
proof (intro conjI impI)
  show "merge_rubrics h0 [] = Inr ([], h0)" by (simp add: merge_rubrics_def)
  show "merge_rubrics h1 [r] = Inr (r, h1)" by (simp add: merge_rubrics_def)
next
  assume a: "later \<noteq> [] \<and> list_all (mergeable h) (r0 # later) \<and> unshared r0 later"
  then obtain h' where h':
    "merge_rubrics h (r0 # later) = Inr (r0, h')"
    "list_entry h' r0 (py ''phases'')
       = merged_list name_key (list_entry h r0 (py ''phases'')) (gathered h (py ''phases'') later)"
    "list_entry h' r0 (py ''key_insights'')
       = merged_list self_key (list_entry h r0 (py ''key_insights''))
           (gathered h (py ''key_insights'') later)"
    "list_entry h' r0 (py ''decision_points'')
       = merged_list trigger_key (list_entry h r0 (py ''decision_points''))
           (gathered h (py ''decision_points'') later)"
    "dict_entry h' r0 (py ''benchmarks'')
       = foldl fill_benchmark (dict_entry h r0 (py ''benchmarks'')) (gathered_benchmarks h later)"
    using merge_rubrics_merges [of later h r0] by blast
  show "\<exists>h'. merge_rubrics h (r0 # later) = Inr (r0, h')
          \<and> list_entry h' r0 (py ''phases'')
              = merged_list name_key (list_entry h r0 (py ''phases''))
                  (gathered h (py ''phases'') later)
          \<and> list_entry h' r0 (py ''key_insights'')
              = merged_list self_key (list_entry h r0 (py ''key_insights''))
                  (gathered h (py ''key_insights'') later)
          \<and> list_entry h' r0 (py ''decision_points'')
              = merged_list trigger_key (list_entry h r0 (py ''decision_points''))
                  (gathered h (py ''decision_points'') later)
          \<and> dict_entry h' r0 (py ''benchmarks'')
              = foldl fill_benchmark (dict_entry h r0 (py ''benchmarks''))
                  (gathered_benchmarks h later)
          \<and> (distinct_keys (key_of name_key) (list_entry h r0 (py ''phases'')) \<longrightarrow>
               list_entry h' r0 (py ''phases'')
               = dedup_by_key (key_of name_key) (gathered h (py ''phases'') (r0 # later)))
          \<and> (distinct_keys (key_of self_key) (list_entry h r0 (py ''key_insights'')) \<longrightarrow>
               list_entry h' r0 (py ''key_insights'')
               = dedup_by_key (key_of self_key) (gathered h (py ''key_insights'') (r0 # later)))
          \<and> (distinct_keys (key_of trigger_key) (list_entry h r0 (py ''decision_points'')) \<longrightarrow>
               list_entry h' r0 (py ''decision_points'')
               = dedup_by_key (key_of trigger_key)
                   (gathered h (py ''decision_points'') (r0 # later)))
          \<and> (\<forall>key. dict_get (dict_entry h' r0 (py ''benchmarks'')) key
               = (case dict_get (dict_entry h r0 (py ''benchmarks'')) key of
                    Some v \<Rightarrow>
                      if v \<noteq> JNull then Some v
                      else (case first_value key (gathered_benchmarks h later) of
                              Some v' \<Rightarrow> Some v'
                            | None \<Rightarrow> Some JNull)
                  | None \<Rightarrow> first_value key (gathered_benchmarks h later)))"
  proof (intro exI [of _ h'] conjI impI allI)
    show "merge_rubrics h (r0 # later) = Inr (r0, h')" by (rule h'(1))
    show "list_entry h' r0 (py ''phases'')
       = merged_list name_key (list_entry h r0 (py ''phases'')) (gathered h (py ''phases'') later)"
      by (rule h'(2))
    show "list_entry h' r0 (py ''key_insights'')
       = merged_list self_key (list_entry h r0 (py ''key_insights''))
           (gathered h (py ''key_insights'') later)" by (rule h'(3))
    show "list_entry h' r0 (py ''decision_points'')
       = merged_list trigger_key (list_entry h r0 (py ''decision_points''))
           (gathered h (py ''decision_points'') later)" by (rule h'(4))
    show "dict_entry h' r0 (py ''benchmarks'')
       = foldl fill_benchmark (dict_entry h r0 (py ''benchmarks'')) (gathered_benchmarks h later)"
      by (rule h'(5))
  next
    assume "distinct_keys (key_of name_key) (list_entry h r0 (py ''phases''))"
    then show "list_entry h' r0 (py ''phases'')
               = dedup_by_key (key_of name_key) (gathered h (py ''phases'') (r0 # later))"
      unfolding h'(2) by (rule merged_list_dedup)
  next
    assume "distinct_keys (key_of self_key) (list_entry h r0 (py ''key_insights''))"
    then show "list_entry h' r0 (py ''key_insights'')
               = dedup_by_key (key_of self_key) (gathered h (py ''key_insights'') (r0 # later))"
      unfolding h'(3) by (rule merged_list_dedup)
  next
    assume "distinct_keys (key_of trigger_key) (list_entry h r0 (py ''decision_points''))"
    then show "list_entry h' r0 (py ''decision_points'')
               = dedup_by_key (key_of trigger_key)
                   (gathered h (py ''decision_points'') (r0 # later))"
      unfolding h'(4) by (rule merged_list_dedup)
  next
    fix key
    show "dict_get (dict_entry h' r0 (py ''benchmarks'')) key
               = (case dict_get (dict_entry h r0 (py ''benchmarks'')) key of
                    Some v \<Rightarrow>
                      if v \<noteq> JNull then Some v
                      else (case first_value key (gathered_benchmarks h later) of
                              Some v' \<Rightarrow> Some v'
                            | None \<Rightarrow> Some JNull)
                  | None \<Rightarrow> first_value key (gathered_benchmarks h later))"
      unfolding h'(5) by (rule dict_get_fill_benchmarks)
  qed
qed

text \<open>
  On the two sample rubrics: both name the phase \<open>Dark Age\<close>, which the result has once,
  followed by the phase \<open>Feudal Age\<close> of the second rubric.
\<close>

theorem merge_rubrics_result_witness:
  "list_all (mergeable sample_heap) [sample_first, sample_second]
   \<and> unshared sample_first [sample_second]
   \<and> distinct_keys (key_of name_key) (list_entry sample_heap sample_first (py ''phases''))
   \<and> merged_entry sample_heap [sample_first, sample_second] (py ''phases'')
       = dedup_by_key (key_of name_key)
           (gathered sample_heap (py ''phases'') [sample_first, sample_second])
   \<and> merged_entry sample_heap [sample_first, sample_second] (py ''phases'')
       = [dark_age, feudal_age]
   \<and> merged_entry sample_heap [sample_first, sample_second] (py ''key_insights'')
       = [JStr (py ''scout early''), JStr (py ''wall up'')]"
proof -
  have ok: "list_all (mergeable sample_heap) [sample_first, sample_second]"
    "unshared sample_first [sample_second]"
    by (simp_all add: shape_eval)
  have d: "distinct_keys (key_of name_key) (list_entry sample_heap sample_first (py ''phases''))"
    by (simp add: shape_eval)
  from merge_rubrics_result [of h0 h1 r "[sample_second]" sample_heap sample_first] ok d
  obtain h' where h':
    "merge_rubrics sample_heap [sample_first, sample_second] = Inr (sample_first, h')"
    "list_entry h' sample_first (py ''phases'')
       = dedup_by_key (key_of name_key)
           (gathered sample_heap (py ''phases'') [sample_first, sample_second])"
    "list_entry h' sample_first (py ''key_insights'')
       = merged_list self_key (list_entry sample_heap sample_first (py ''key_insights''))
           (gathered sample_heap (py ''key_insights'') [sample_second])"
    by auto
  have e1: "merged_entry sample_heap [sample_first, sample_second] (py ''phases'')
       = dedup_by_key (key_of name_key)
           (gathered sample_heap (py ''phases'') [sample_first, sample_second])"
    by (simp add: merged_entry_def h'(1,2))
  have e2: "dedup_by_key (key_of name_key)
           (gathered sample_heap (py ''phases'') [sample_first, sample_second])
       = [dark_age, feudal_age]"
    by (simp add: dedup_by_key_def gathered_def key_of_def in_set_def py_eq_def shape_eval)
  have e3: "merged_entry sample_heap [sample_first, sample_second] (py ''key_insights'')
       = merged_list self_key (list_entry sample_heap sample_first (py ''key_insights''))
           (gathered sample_heap (py ''key_insights'') [sample_second])"
    by (simp add: merged_entry_def h'(1,3))
  have e4: "merged_list self_key (list_entry sample_heap sample_first (py ''key_insights''))
           (gathered sample_heap (py ''key_insights'') [sample_second])
       = [JStr (py ''scout early''), JStr (py ''wall up'')]"
    by (simp add: merged_list_def gathered_def key_of_def in_set_def py_eq_def shape_eval)
  from ok d e1 e2 e3 e4 show ?thesis by simp
qed

text \<open>
  The claim as written fails in two places. A first rubric that names the phase
  \<open>Dark Age\<close> twice keeps both phases in the result, where the deduplication of all
  inputs keeps the first one only. And a later rubric with a phase that has no \<open>name\<close>
  makes the call raise \<open>KeyError\<close>.
\<close>

theorem merge_rubrics_duplicates_counterexample:
  "list_all (mergeable twice_heap) [sample_first, sample_second]
   \<and> unshared sample_first [sample_second]
   \<and> merged_entry twice_heap [sample_first, sample_second] (py ''phases'')
       = [dark_age, dark_age_again, feudal_age]
   \<and> dedup_by_key (key_of name_key)
         (gathered twice_heap (py ''phases'') [sample_first, sample_second])
       = [dark_age, feudal_age]
   \<and> merge_rubrics nameless_heap [sample_first, sample_second] = Inl KeyError"
proof -
  have "list_all (mergeable twice_heap) [sample_first, sample_second]"
    "unshared sample_first [sample_second]"
    by (simp_all add: shape_eval)
  moreover have "merged_entry twice_heap [sample_first, sample_second] (py ''phases'')
       = [dark_age, dark_age_again, feudal_age]"
    by (simp add: merged_entry_def merge_eval)
  moreover have "dedup_by_key (key_of name_key)
         (gathered twice_heap (py ''phases'') [sample_first, sample_second])
       = [dark_age, feudal_age]"
    by (simp add: dedup_by_key_def gathered_def key_of_def in_set_def py_eq_def shape_eval)
  moreover have "merge_rubrics nameless_heap [sample_first, sample_second] = Inl KeyError"
    by (simp add: merge_eval)
  ultimately show ?thesis by simp
qed

text \<open>
  Claim C10 does not hold of the code. \<open>merge_rubrics\<close> changes its first rubric: the copy it makes
  is of the top-level dict only, so the appended phases and insights and the stored
  benchmarks arrive in the lists and the dict of \<open>rubrics[0]\<close>. On the two sample rubrics
  the first rubric has one phase, one insight and no feudal age time before the call,
  and two phases, two insights and the feudal age time of the second rubric after it.
  The second rubric is as before.
\<close>

theorem merge_rubrics_changes_first_rubric:
  "list_entry sample_heap sample_first (py ''phases'') = [dark_age]
   \<and> list_entry (heap_after sample_heap [sample_first, sample_second]) sample_first (py ''phases'')
       = [dark_age, feudal_age]
   \<and> list_entry sample_heap sample_first (py ''key_insights'') = [JStr (py ''scout early'')]
   \<and> list_entry (heap_after sample_heap [sample_first, sample_second]) sample_first
         (py ''key_insights'')
       = [JStr (py ''scout early''), JStr (py ''wall up'')]
   \<and> dict_entry sample_heap sample_first (py ''benchmarks'')
       = [(py ''feudal_age'', JNull), (py ''castle_age'', JInt 900)]
   \<and> dict_entry (heap_after sample_heap [sample_first, sample_second]) sample_first
         (py ''benchmarks'')
       = [(py ''feudal_age'', JInt 300), (py ''castle_age'', JInt 900)]
   \<and> list_entry (heap_after sample_heap [sample_first, sample_second]) sample_second (py ''phases'')
       = list_entry sample_heap sample_second (py ''phases'')"
proof -
  have m: "heap_after sample_heap [sample_first, sample_second]
    = sample_heap
       (0 := OList [dark_age, feudal_age],
        1 := OList [JStr (py ''scout early''), JStr (py ''wall up'')],
        2 := ODict [(py ''feudal_age'', JInt 300), (py ''castle_age'', JInt 900)])"
    by (simp add: heap_after_def merge_eval)
  show ?thesis
    unfolding m
    by (simp add: list_entry_def dict_entry_def entry_get_def sample_first_def sample_second_def
        sample_heap_def)
qed

end
